theory Spec2Isabelle
  imports Complex_Main
begin

section \<open>The matcher of fzf (src/matcher.go)\<close>

text \<open>
  The Go file holds the request loop of the matcher (\<^verbatim>\<open>Matcher.Loop\<close>), the partitioner
  (\<^verbatim>\<open>Matcher.sliceChunks\<close>) and the scan (\<^verbatim>\<open>Matcher.scan\<close>) with its worker goroutines.
  Go's \<^verbatim>\<open>int\<close> is 64 bits wide; every integer below is a length, a counter bounded by a
  length or a product bounded by a length, so \<open>nat\<close> models it without wrap-around.
  A panic of the Go runtime is a value of \<open>error\<close>, returned on the left of a sum.
\<close>

datatype error =
    DivideByZero
  | IndexOutOfRange
  | SliceBounds
  | NilDereference
  | UnexpectedType
  | Deadlock

subsection \<open>Data\<close>

text \<open>
  Modelled from the spec: the declaration of \<^verbatim>\<open>Chunk\<close> is not in the file. The spec
  calls a chunk an ordered batch of items; \<open>items\<close> is the sequence of the items the chunk
  holds, in order.
\<close>

record 'i Chunk =
  items :: "'i list"

text \<open>
  \<^verbatim>\<open>Pattern\<close> is declared elsewhere. The file uses four of its members, which are the
  fields here: \<^verbatim>\<open>AsString()\<close>, \<^verbatim>\<open>IsEmpty()\<close>, \<^verbatim>\<open>sortable\<close> and \<^verbatim>\<open>Match(chunk, slab)\<close>.
  The slab is scratch memory of the scoring; the matches do not depend on it.
\<close>

record ('i, 'r) Pattern =
  AsString :: string
  IsEmpty :: bool
  sortable :: bool
  Match :: "'i Chunk \<Rightarrow> 'r list"

text \<open>\<^verbatim>\<open>MatchRequest\<close> (lines 14-20). \<open>'v\<close> is the type of revisions.\<close>

record ('i, 'r, 'v) MatchRequest =
  rq_chunks :: "'i Chunk list"
  rq_pattern :: "('i, 'r) Pattern"
  rq_final :: bool
  rq_sort :: bool
  rq_revision :: 'v

text \<open>
  Modelled from the spec: \<^verbatim>\<open>Merger\<close> is declared elsewhere. Section 6 of the spec gives
  its three constructors with their arguments and the mutable field \<^verbatim>\<open>final\<close>; a merger
  is the record of the constructor call that built it, and that flag.
\<close>

datatype ('i, 'r, 'v) MergerBody =
    EmptyBody 'v
  | PassBody "'i Chunk list" bool 'v
  | BuildBody "('i, 'r) Pattern" "'r list list" bool bool 'v int int

record ('i, 'r, 'v) Merger =
  mg_body :: "('i, 'r, 'v) MergerBody"
  mg_final :: bool

text \<open>Modelled from the spec: \<^verbatim>\<open>EmptyMerger(revision)\<close>, the empty result of a revision.\<close>

definition EmptyMerger :: "'v \<Rightarrow> ('i, 'r, 'v) Merger" where
  "EmptyMerger rv = \<lparr>mg_body = EmptyBody rv, mg_final = False\<rparr>"

text \<open>
  Modelled from the spec: \<^verbatim>\<open>PassMerger(&chunks, tac, revision)\<close>, the pass-through result
  that wraps the chunks unscored.
\<close>

definition PassMerger :: "'i Chunk list \<Rightarrow> bool \<Rightarrow> 'v \<Rightarrow> ('i, 'r, 'v) Merger" where
  "PassMerger cs tac rv = \<lparr>mg_body = PassBody cs tac rv, mg_final = False\<rparr>"

text \<open>
  Modelled from the spec: \<^verbatim>\<open>NewMerger(pattern, lists, sorted, tac, revision, minIndex,
  maxIndex)\<close>, the result built from the partial results in partition order.
\<close>

definition NewMerger ::
  "('i, 'r) Pattern \<Rightarrow> 'r list list \<Rightarrow> bool \<Rightarrow> bool \<Rightarrow> 'v \<Rightarrow> int \<Rightarrow> int \<Rightarrow> ('i, 'r, 'v) Merger" where
  "NewMerger p partials sorted_flag tac rv minIndex maxIndex =
     \<lparr>mg_body = BuildBody p partials sorted_flag tac rv minIndex maxIndex, mg_final = False\<rparr>"

text \<open>Modelled from the spec: the revision a merger is tagged with.\<close>

fun bodyRevision :: "('i, 'r, 'v) MergerBody \<Rightarrow> 'v" where
  "bodyRevision (EmptyBody rv) = rv"
| "bodyRevision (PassBody cs tac rv) = rv"
| "bodyRevision (BuildBody p partials sorted_flag tac rv lo hi) = rv"

text \<open>
  Modelled from the spec: the items of a merger that was built without scoring, in the
  order the merger yields them. The empty merger has none; the pass-through merger has
  every item of its chunks, in the order of the chunks, or in the reverse of it in tac
  mode. The ranking of a merger built from scored results is outside the spec (None).
\<close>

fun unscoredItems :: "('i, 'r, 'v) MergerBody \<Rightarrow> 'i list option" where
  "unscoredItems (EmptyBody rv) = Some []"
| "unscoredItems (PassBody cs tac rv) =
     Some (if tac then rev (concat (map items cs)) else concat (map items cs))"
| "unscoredItems (BuildBody p partials sorted_flag tac rv lo hi) = None"

text \<open>
  The operations of the collaborators that the file calls and does not define. They are
  parameters of the model: \<^verbatim>\<open>Item.Index()\<close>, \<^verbatim>\<open>Chunk.lastIndex(minValue)\<close>,
  \<^verbatim>\<open>CountItems(chunks)\<close>, \<^verbatim>\<open>revision.compatible(other)\<close>, \<^verbatim>\<open>Merger.cacheable()\<close>, and
  the lists that \<^verbatim>\<open>sort.Sort(ByRelevance(xs))\<close> and \<^verbatim>\<open>sort.Sort(ByRelevanceTac(xs))\<close>
  leave in \<^verbatim>\<open>xs\<close>. The read \<^verbatim>\<open>c.items[0]\<close> of a chunk is a parameter as well, \<open>firstItem\<close>:
  it gives the item read, or \<open>None\<close> when the index is out of range and Go panics. For
  which chunks it is in range is a matter of the declaration of \<^verbatim>\<open>Chunk\<close> (a slice of the
  items held is out of range at 0 when the chunk holds none; an array of fixed size is
  not).
\<close>

record ('i, 'r, 'v) ext =
  Index :: "'i \<Rightarrow> int"
  firstItem :: "'i Chunk \<Rightarrow> 'i option"
  lastIndex :: "'i Chunk \<Rightarrow> int \<Rightarrow> int"
  CountItems :: "'i Chunk list \<Rightarrow> nat"
  compatible :: "'v \<Rightarrow> 'v \<Rightarrow> bool"
  cacheable :: "('i, 'r, 'v) Merger \<Rightarrow> bool"
  ByRelevance :: "'r list \<Rightarrow> 'r list"
  ByRelevanceTac :: "'r list \<Rightarrow> 'r list"

text \<open>
  The events set on the output mailbox \<^verbatim>\<open>m.eventBox\<close>. \<^verbatim>\<open>EvtSearchFin\<close> carries a pointer
  to a merger: an address of the store of mergers below. \<^verbatim>\<open>EvtSearchProgress\<close> carries
  the ratio \<^verbatim>\<open>float32(count)/float32(numChunks)\<close>; the model keeps the exact quotient
  (rounding to \<^verbatim>\<open>float32\<close> is monotone, so it keeps the order of the quotients).
\<close>

datatype Event =
    EvtSearchProgress rat
  | EvtSearchFin nat

fun isFin :: "Event \<Rightarrow> bool" where
  "isFin (EvtSearchFin a) = True"
| "isFin (EvtSearchProgress q) = False"

text \<open>
  \<^verbatim>\<open>Matcher\<close> (lines 23-34). \<open>m_cache\<close> counts the calls of \<^verbatim>\<open>Clear()\<close> on the upstream
  chunk cache; \<open>m_eventBox\<close> is the sequence of the events set on the output mailbox,
  oldest first; \<open>m_slab\<close> says which scratch slots are allocated; \<open>m_mergerCache\<close> maps a
  pattern string to a pointer to a merger. The pattern builder and the request mailbox
  are inputs of the model (the requests and the schedule).
\<close>

record 'v Matcher =
  m_cache :: nat
  m_sort :: bool
  m_tac :: bool
  m_eventBox :: "Event list"
  m_partitions :: nat
  m_slab :: "bool list"
  m_mergerCache :: "string \<rightharpoonup> nat"
  m_revision :: 'v

text \<open>
  \<^verbatim>\<open>NewMatcher\<close> (lines 42-56). The constants \<^verbatim>\<open>numPartitionsMultiplier\<close> and
  \<^verbatim>\<open>maxPartitions\<close> and the value of \<^verbatim>\<open>runtime.NumCPU()\<close> are parameters.
\<close>

definition NewMatcher :: "nat \<Rightarrow> nat \<Rightarrow> nat \<Rightarrow> bool \<Rightarrow> bool \<Rightarrow> 'v \<Rightarrow> 'v Matcher" where
  "NewMatcher numPartitionsMultiplier maxPartitions numCPU sort_flag tac revision =
     (let partitions = min (numPartitionsMultiplier * numCPU) maxPartitions in
      \<lparr>m_cache = 0,
       m_sort = sort_flag,
       m_tac = tac,
       m_eventBox = [],
       m_partitions = partitions,
       m_slab = replicate partitions False,
       m_mergerCache = Map.empty,
       m_revision = revision\<rparr>)"

subsection \<open>The partitioner\<close>

text \<open>
  The slice expression \<^verbatim>\<open>xs[s:e]\<close>. Go panics unless \<open>s \<le> e \<le> cap xs\<close>; the model checks
  against the length, which is at most the capacity.
\<close>

definition slice :: "'a list \<Rightarrow> nat \<Rightarrow> nat \<Rightarrow> error + 'a list" where
  "slice xs s e =
     (if s \<le> e \<and> e \<le> length xs then Inr (take (e - s) (drop s xs)) else Inl SliceBounds)"

text \<open>The loop of lines 139-146, from the value \<open>i\<close> of its counter on.\<close>

function sliceLoop ::
  "'a list \<Rightarrow> nat \<Rightarrow> nat \<Rightarrow> nat \<Rightarrow> 'a list list \<Rightarrow> error + 'a list list" where
  "sliceLoop chunks partitions perSlice i slices =
     (if i < partitions then
        (let start = i * perSlice;
             end0 = start + perSlice;
             end1 = (if i = partitions - 1 then length chunks else end0)
         in case slice chunks start end1 of
              Inl e \<Rightarrow> Inl e
            | Inr s \<Rightarrow> sliceLoop chunks partitions perSlice (i + 1) (slices[i := s]))
      else Inr slices)"
  by pat_completeness auto
termination
  by (relation "measure (\<lambda>(chunks, partitions, perSlice, i, slices). partitions - i)") auto

declare sliceLoop.simps [simp del]

text \<open>
  \<^verbatim>\<open>sliceChunks\<close> (lines 129-148). The division of line 131 panics when the partition
  count is zero.
\<close>

definition sliceChunks :: "'v Matcher \<Rightarrow> 'a list \<Rightarrow> error + 'a list list" where
  "sliceChunks m chunks =
     (if m_partitions m = 0 then Inl DivideByZero
      else
        (let perSlice0 = length chunks div m_partitions m;
             partitions = (if perSlice0 = 0 then length chunks else m_partitions m);
             perSlice = (if perSlice0 = 0 then 1 else perSlice0)
         in sliceLoop chunks partitions perSlice 0 (replicate partitions [])))"

subsection \<open>The schedule of a scan\<close>

text \<open>
  A scan runs its workers concurrently and reads the clock and the request mailbox.
  What the scheduler, the clock and the mailbox decide is an input of the model:
  \<^item> \<open>sc_countOrder\<close>: the order in which the workers' sends reach \<^verbatim>\<open>countChan\<close>, as the
    index of the sending worker, message by message;
  \<^item> \<open>sc_resultOrder\<close>: the same for \<^verbatim>\<open>resultChan\<close>;
  \<^item> \<open>sc_peeks\<close>: the answers of \<^verbatim>\<open>m.reqBox.Peek(reqReset)\<close>, call by call;
  \<^item> \<open>sc_lates\<close>: the answers of \<^verbatim>\<open>time.Since(startedAt) > progressMinDuration\<close>, call by
    call.
  An answer that a list does not hold is \<open>False\<close>.
\<close>

record sched =
  sc_countOrder :: "nat list"
  sc_resultOrder :: "nat list"
  sc_peeks :: "bool list"
  sc_lates :: "bool list"

definition answer :: "bool list \<Rightarrow> bool" where
  "answer bs = (case bs of [] \<Rightarrow> False | b # _ \<Rightarrow> b)"

text \<open>
  The sequence a channel delivers when each sender has the queue \<open>qs ! i\<close> to send: the
  order picks the sender of the next message; a pick of a sender that has nothing left
  is skipped, and when the order ends the channel delivers the rest sender by sender.
  Both channels are buffered with room for every message, so no send blocks.
\<close>

fun interleave :: "nat list \<Rightarrow> 'a list list \<Rightarrow> 'a list" where
  "interleave [] qs = concat qs"
| "interleave (i # order) qs =
     (if i < length qs then
        (case qs ! i of
           [] \<Rightarrow> interleave order qs
         | x # xs \<Rightarrow> x # interleave order (qs[i := xs]))
      else interleave order qs)"

subsection \<open>The scan worker\<close>

text \<open>\<^verbatim>\<open>partialResult\<close> (lines 150-153).\<close>

record 'r partialResult =
  pr_index :: nat
  pr_matches :: "'r list"

text \<open>
  What a worker goroutine does to the two channels: the match counts it sends on
  \<^verbatim>\<open>countChan\<close>, in order, and the partial results it sends on \<^verbatim>\<open>resultChan\<close> (one or
  none).
\<close>

record 'r workerOut =
  w_sent :: "nat list"
  w_handed :: "'r partialResult list"

text \<open>
  The loop of lines 186-194 over the chunks that are left. \<open>obs\<close> holds the values that
  the reads \<^verbatim>\<open>cancelled.Get()\<close> of this worker return, read by read. The result says
  whether the worker returned at line 191, and gives \<^verbatim>\<open>count\<close>, \<^verbatim>\<open>allMatches\<close> and the
  counts sent.
\<close>

fun workerLoop ::
  "('i, 'r) Pattern \<Rightarrow> bool list \<Rightarrow> 'i Chunk list \<Rightarrow> nat \<Rightarrow> nat \<Rightarrow> 'r list list \<Rightarrow> nat list
   \<Rightarrow> bool \<times> nat \<times> 'r list list \<times> nat list" where
  "workerLoop p obs [] idx count allMatches sent = (False, count, allMatches, sent)"
| "workerLoop p obs (chunk # rest) idx count allMatches sent =
     (let matches = Match p chunk;
          allMatches1 = allMatches[idx := matches];
          count1 = count + length matches
      in if answer obs then (True, count1, allMatches1, sent)
         else workerLoop p (tl obs) rest (idx + 1) count1 allMatches1 (sent @ [length matches]))"

text \<open>The loop of lines 196-198.\<close>

fun appendAll :: "'r list \<Rightarrow> 'r list list \<Rightarrow> 'r list" where
  "appendAll sliceMatches [] = sliceMatches"
| "appendAll sliceMatches (matches # rest) = appendAll (sliceMatches @ matches) rest"

text \<open>
  Lines 199-205: the sort of the matches of a slice. The worker reads \<^verbatim>\<open>m.sort\<close> and
  \<^verbatim>\<open>m.tac\<close> of the matcher and the pattern of the request.
\<close>

definition localSort ::
  "('i, 'r, 'v) ext \<Rightarrow> 'v Matcher \<Rightarrow> ('i, 'r, 'v) MatchRequest \<Rightarrow> 'r list \<Rightarrow> 'r list" where
  "localSort E m request sliceMatches =
     (if m_sort m \<and> sortable (rq_pattern request) then
        (if m_tac m then ByRelevanceTac E sliceMatches else ByRelevance E sliceMatches)
      else sliceMatches)"

text \<open>The goroutine of lines 182-207 for the slice \<open>chunks\<close> of index \<open>idx\<close>.\<close>

definition worker ::
  "('i, 'r, 'v) ext \<Rightarrow> 'v Matcher \<Rightarrow> ('i, 'r, 'v) MatchRequest \<Rightarrow> bool list \<Rightarrow> nat \<Rightarrow> 'i Chunk list
   \<Rightarrow> 'r workerOut" where
  "worker E m request obs idx chunks =
     (case workerLoop (rq_pattern request) obs chunks 0 0 (replicate (length chunks) []) [] of
        (returned, count, allMatches, sent) \<Rightarrow>
          if returned then \<lparr>w_sent = sent, w_handed = []\<rparr>
          else
            (let sliceMatches = appendAll [] allMatches;
                 sliceMatches1 = localSort E m request sliceMatches
             in \<lparr>w_sent = sent,
                 w_handed = [\<lparr>pr_index = idx, pr_matches = sliceMatches1\<rparr>]\<rparr>))"

subsection \<open>The scan supervisor\<close>

text \<open>
  The loop of lines 177-208: one goroutine per slice, after the scratch slot of its
  index is allocated if it was not. The read \<^verbatim>\<open>m.slab[idx]\<close> panics out of range.
  The workers are started with no cancellation observed: the flag is raised by
  \<^verbatim>\<open>wait()\<close> alone, on the path that returns \<^verbatim>\<open>nil, true\<close> whatever the workers did
  since, and every message the supervisor received before was sent by a worker that
  had read the flag unset.
\<close>

fun spawn ::
  "('i, 'r, 'v) ext \<Rightarrow> 'v Matcher \<Rightarrow> ('i, 'r, 'v) MatchRequest \<Rightarrow> nat \<Rightarrow> 'i Chunk list list
   \<Rightarrow> bool list \<Rightarrow> error + (bool list \<times> 'r workerOut list)" where
  "spawn E m request idx [] slab = Inr (slab, [])"
| "spawn E m request idx (chunks # rest) slab =
     (if idx < length slab then
        (let slab1 = (if \<not> slab ! idx then slab[idx := True] else slab)
         in case spawn E m request (idx + 1) rest slab1 of
              Inl e \<Rightarrow> Inl e
            | Inr (slab2, ws) \<Rightarrow> Inr (slab2, worker E m request [] idx chunks # ws))
      else Inl IndexOutOfRange)"

text \<open>
  How the loop of lines 218-233 ends: by the \<^verbatim>\<open>break\<close> of line 223, with \<^verbatim>\<open>count\<close> and
  \<^verbatim>\<open>matchCount\<close>; by the \<^verbatim>\<open>return nil, wait()\<close> of line 227; or never, when the channel
  has no further message for it.
\<close>

datatype loopExit =
    Collected nat nat
  | Reset
  | Starved

text \<open>
  The loop of lines 218-233 over the messages the channel delivers. It gives the way
  the loop ends and the progress ratios set on the output mailbox, oldest first.
\<close>

fun countLoop ::
  "nat \<Rightarrow> nat list \<Rightarrow> bool list \<Rightarrow> bool list \<Rightarrow> nat \<Rightarrow> nat \<Rightarrow> rat list \<Rightarrow> loopExit \<times> rat list" where
  "countLoop numChunks [] peeks lates count matchCount progress = (Starved, progress)"
| "countLoop numChunks (matchesInChunk # msgs) peeks lates count matchCount progress =
     (let count1 = count + 1;
          matchCount1 = matchCount + matchesInChunk
      in if count1 = numChunks then (Collected count1 matchCount1, progress)
         else if answer peeks then (Reset, progress)
         else if answer lates then
           countLoop numChunks msgs (tl peeks) (tl lates) count1 matchCount1
             (progress @ [of_nat count1 / of_nat numChunks])
         else countLoop numChunks msgs (tl peeks) (tl lates) count1 matchCount1 progress)"

text \<open>
  The loop of lines 236-239: \<open>n\<close> receives from \<^verbatim>\<open>resultChan\<close>, each stored at its index.
  A receive on a channel that delivers nothing more never returns.
\<close>

fun collectResults ::
  "nat \<Rightarrow> 'r partialResult list \<Rightarrow> 'r list list \<Rightarrow> error + 'r list list" where
  "collectResults 0 arrivals partialResults = Inr partialResults"
| "collectResults (Suc n) [] partialResults = Inl Deadlock"
| "collectResults (Suc n) (pr # arrivals) partialResults =
     (if pr_index pr < length partialResults then
        collectResults n arrivals (partialResults[pr_index pr := pr_matches pr])
      else Inl IndexOutOfRange)"

text \<open>
  What a call of \<^verbatim>\<open>scan\<close> returns and did: the two results of the Go function, the
  progress ratios it set on the output mailbox, the value of \<^verbatim>\<open>count\<close> when the loop of
  lines 218-233 was left by its \<^verbatim>\<open>break\<close> (0 when it was not), and the slices it started a
  worker for.
\<close>

record ('i, 'r, 'v) ScanOut =
  so_merger :: "('i, 'r, 'v) Merger option"
  so_cancelled :: bool
  so_progress :: "rat list"
  so_count :: nat
  so_dispatched :: "'i Chunk list list"

text \<open>\<^verbatim>\<open>scan\<close> (lines 155-241).\<close>

definition scan ::
  "('i, 'r, 'v) ext \<Rightarrow> 'v Matcher \<Rightarrow> ('i, 'r, 'v) MatchRequest \<Rightarrow> sched
   \<Rightarrow> error + ('v Matcher \<times> ('i, 'r, 'v) ScanOut)" where
  "scan E m request sch =
     (let numChunks = length (rq_chunks request) in
      if numChunks = 0 then
        Inr (m, \<lparr>so_merger = Some (EmptyMerger (rq_revision request)), so_cancelled = False,
                 so_progress = [], so_count = 0, so_dispatched = []\<rparr>)
      else
        (let pattern = rq_pattern request in
         if IsEmpty pattern then
           Inr (m, \<lparr>so_merger = Some (PassMerger (rq_chunks request) (m_tac m) (rq_revision request)),
                    so_cancelled = False, so_progress = [], so_count = 0, so_dispatched = []\<rparr>)
         else
           (case firstItem E (rq_chunks request ! 0) of
              None \<Rightarrow> Inl IndexOutOfRange
            | Some item0 \<Rightarrow>
                (let minIndex = Index E item0;
                     maxIndex = lastIndex E (rq_chunks request ! (numChunks - 1)) minIndex
                 in case sliceChunks m (rq_chunks request) of
                      Inl e \<Rightarrow> Inl e
                    | Inr slices \<Rightarrow>
                        (let numSlices = length slices in
                         case spawn E m request 0 slices (m_slab m) of
                           Inl e \<Rightarrow> Inl e
                         | Inr (slab, ws) \<Rightarrow>
                             (let m1 = m\<lparr>m_slab := slab\<rparr>;
                                  msgs = interleave (sc_countOrder sch) (map w_sent ws)
                              in case countLoop numChunks msgs (sc_peeks sch) (sc_lates sch) 0 0 [] of
                                   (Starved, progress) \<Rightarrow> Inl Deadlock
                                 | (Reset, progress) \<Rightarrow>
                                     Inr (m1\<lparr>m_eventBox := m_eventBox m1 @ map EvtSearchProgress progress\<rparr>,
                                          \<lparr>so_merger = None, so_cancelled = True,
                                           so_progress = progress, so_count = 0,
                                           so_dispatched = slices\<rparr>)
                                 | (Collected count matchCount, progress) \<Rightarrow>
                                     (case collectResults numSlices
                                             (interleave (sc_resultOrder sch) (map w_handed ws))
                                             (replicate numSlices []) of
                                        Inl e \<Rightarrow> Inl e
                                      | Inr partialResults \<Rightarrow>
                                          Inr (m1\<lparr>m_eventBox := m_eventBox m1 @ map EvtSearchProgress progress\<rparr>,
                                               \<lparr>so_merger =
                                                  Some (NewMerger pattern partialResults
                                                          (m_sort m \<and> sortable (rq_pattern request))
                                                          (m_tac m) (rq_revision request) minIndex maxIndex),
                                                so_cancelled = False,
                                                so_progress = progress, so_count = count,
                                                so_dispatched = slices\<rparr>))))))))"

subsection \<open>The request loop\<close>

text \<open>
  The state of \<^verbatim>\<open>Loop\<close> between two iterations: the matcher, the local \<^verbatim>\<open>prevCount\<close>, and
  the store of the mergers. A \<^verbatim>\<open>*Merger\<close> is an address of the store; \<open>ls_next\<close> is the
  address that the next merger gets. The merger cache and the output mailbox hold
  pointers, and line 123 writes through one, so the store is explicit.
\<close>

record ('i, 'r, 'v) LoopState =
  ls_m :: "'v Matcher"
  ls_prevCount :: nat
  ls_heap :: "nat \<Rightarrow> ('i, 'r, 'v) Merger"
  ls_next :: nat

text \<open>
  What one iteration did: the local \<^verbatim>\<open>cacheCleared\<close>, whether \<^verbatim>\<open>m.scan\<close> was called
  (line 116), the local \<^verbatim>\<open>cancelled\<close>, whether the merger was stored in the merger cache
  (line 121), and the local \<^verbatim>\<open>merger\<close> at the end.
\<close>

record CycleTrace =
  ct_cacheCleared :: bool
  ct_scanned :: bool
  ct_cancelled :: bool
  ct_stored :: bool
  ct_merger :: "nat option"

text \<open>Lines 85-94. It gives the matcher and \<^verbatim>\<open>cacheCleared\<close>.\<close>

definition invalidate ::
  "('i, 'r, 'v) ext \<Rightarrow> 'v Matcher \<Rightarrow> ('i, 'r, 'v) MatchRequest \<Rightarrow> 'v Matcher \<times> bool" where
  "invalidate E m request =
     (if rq_sort request \<noteq> m_sort m \<or> rq_revision request \<noteq> m_revision m then
        (let m1 = m\<lparr>m_sort := rq_sort request\<rparr>;
             m2 = m1\<lparr>m_revision := rq_revision request\<rparr>;
             m3 = m2\<lparr>m_mergerCache := Map.empty\<rparr>;
             m4 = (if \<not> compatible E (rq_revision request) (m_revision m3)
                   then m3\<lparr>m_cache := m_cache m3 + 1\<rparr> else m3)
         in (m4, True))
      else (m, False))"

text \<open>Lines 102-113. It gives the local \<^verbatim>\<open>merger\<close>, \<^verbatim>\<open>prevCount\<close> and the matcher.\<close>

definition lookupCache ::
  "(nat \<Rightarrow> ('i, 'r, 'v) Merger) \<Rightarrow> 'v Matcher \<Rightarrow> bool \<Rightarrow> nat \<Rightarrow> nat \<Rightarrow> string
   \<Rightarrow> ('i, 'r, 'v) MatchRequest \<Rightarrow> nat option \<times> nat \<times> 'v Matcher" where
  "lookupCache heap m cacheCleared prevCount count patternString request =
     (if \<not> cacheCleared then
        (if count = prevCount then
           (case m_mergerCache m patternString of
              Some cached \<Rightarrow>
                (if mg_final (heap cached) = rq_final request then (Some cached, prevCount, m)
                 else (None, prevCount, m))
            | None \<Rightarrow> (None, prevCount, m))
         else (None, count, m\<lparr>m_mergerCache := Map.empty\<rparr>))
      else (None, prevCount, m))"

text \<open>
  Lines 115-117. A merger that the scan returns is new: it is put in the store at the
  next free address.
\<close>

definition scanIfNeeded ::
  "('i, 'r, 'v) ext \<Rightarrow> sched \<Rightarrow> (nat \<Rightarrow> ('i, 'r, 'v) Merger) \<Rightarrow> nat \<Rightarrow> 'v Matcher
   \<Rightarrow> ('i, 'r, 'v) MatchRequest \<Rightarrow> nat option
   \<Rightarrow> error + ('v Matcher \<times> nat option \<times> bool \<times> bool \<times> (nat \<Rightarrow> ('i, 'r, 'v) Merger) \<times> nat)" where
  "scanIfNeeded E sch heap next m request merger =
     (case merger of
        Some a \<Rightarrow> Inr (m, Some a, False, False, heap, next)
      | None \<Rightarrow>
          (case scan E m request sch of
             Inl e \<Rightarrow> Inl e
           | Inr (m1, out) \<Rightarrow>
               (case so_merger out of
                  None \<Rightarrow> Inr (m1, None, so_cancelled out, True, heap, next)
                | Some mg \<Rightarrow>
                    Inr (m1, Some next, so_cancelled out, True, heap(next := mg), next + 1))))"

text \<open>
  Lines 119-125, and the state and the trace at the end of the iteration. A merger that
  is \<^verbatim>\<open>nil\<close> when line 120 calls its method is a nil dereference.
\<close>

definition publish ::
  "('i, 'r, 'v) ext \<Rightarrow> ('i, 'r, 'v) MatchRequest \<Rightarrow> string \<Rightarrow> bool \<Rightarrow> nat \<Rightarrow> 'v Matcher
   \<Rightarrow> nat option \<Rightarrow> bool \<Rightarrow> bool \<Rightarrow> (nat \<Rightarrow> ('i, 'r, 'v) Merger) \<Rightarrow> nat
   \<Rightarrow> error + (('i, 'r, 'v) LoopState \<times> CycleTrace)" where
  "publish E request patternString cacheCleared prevCount m merger cancelled scanned heap next =
     (if \<not> cancelled then
        (case merger of
           None \<Rightarrow> Inl NilDereference
         | Some a \<Rightarrow>
             (let stored = cacheable E (heap a);
                  m1 = (if stored
                        then m\<lparr>m_mergerCache := (m_mergerCache m)(patternString \<mapsto> a)\<rparr>
                        else m);
                  heap1 = heap(a := (heap a)\<lparr>mg_final := rq_final request\<rparr>);
                  m2 = m1\<lparr>m_eventBox := m_eventBox m1 @ [EvtSearchFin a]\<rparr>
              in Inr (\<lparr>ls_m = m2, ls_prevCount = prevCount, ls_heap = heap1, ls_next = next\<rparr>,
                      \<lparr>ct_cacheCleared = cacheCleared, ct_scanned = scanned,
                       ct_cancelled = False, ct_stored = stored, ct_merger = Some a\<rparr>)))
      else
        Inr (\<lparr>ls_m = m, ls_prevCount = prevCount, ls_heap = heap, ls_next = next\<rparr>,
             \<lparr>ct_cacheCleared = cacheCleared, ct_scanned = scanned, ct_cancelled = True,
              ct_stored = False, ct_merger = merger\<rparr>))"

text \<open>One iteration of the loop for the request it took from the mailbox (lines 85-125).\<close>

definition cycle ::
  "('i, 'r, 'v) ext \<Rightarrow> sched \<Rightarrow> ('i, 'r, 'v) LoopState \<Rightarrow> ('i, 'r, 'v) MatchRequest
   \<Rightarrow> error + (('i, 'r, 'v) LoopState \<times> CycleTrace)" where
  "cycle E sch st request =
     (case invalidate E (ls_m st) request of
        (m1, cacheCleared) \<Rightarrow>
          (let patternString = AsString (rq_pattern request);
               count = CountItems E (rq_chunks request)
           in case lookupCache (ls_heap st) m1 cacheCleared (ls_prevCount st) count patternString
                     request of
                (merger0, prevCount, m2) \<Rightarrow>
                  (case scanIfNeeded E sch (ls_heap st) (ls_next st) m2 request merger0 of
                     Inl e \<Rightarrow> Inl e
                   | Inr (m3, merger, cancelled, scanned, heap1, next1) \<Rightarrow>
                       publish E request patternString cacheCleared prevCount m3 merger cancelled
                         scanned heap1 next1)))"

text \<open>
  The events of the request mailbox. \<^verbatim>\<open>reqRetry\<close> and \<^verbatim>\<open>reqReset\<close> are declared at lines
  36-39, \<^verbatim>\<open>reqQuit\<close> elsewhere. A payload is a \<^verbatim>\<open>MatchRequest\<close> or a value of another type.
\<close>

datatype EventType = reqRetry | reqReset | reqQuit

datatype ('i, 'r, 'v) Payload =
    Request "('i, 'r, 'v) MatchRequest"
  | Other

text \<open>
  The handler of lines 66-80 on the pending events, in the order in which the
  iteration over the Go map yields them. It gives \<^verbatim>\<open>stop\<close> and the request taken.
\<close>

fun drain ::
  "(EventType \<times> ('i, 'r, 'v) Payload) list \<Rightarrow> ('i, 'r, 'v) MatchRequest option
   \<Rightarrow> error + (bool \<times> ('i, 'r, 'v) MatchRequest option)" where
  "drain [] request = Inr (False, request)"
| "drain ((t, val) # events) request =
     (if t = reqQuit then Inr (True, request)
      else
        (case val of
           Request r \<Rightarrow> drain events (Some r)
         | Other \<Rightarrow> Inl UnexpectedType))"

text \<open>
  \<^verbatim>\<open>Loop\<close> (lines 59-127) from a state on, over the successive contents of the request
  mailbox at the returns of \<^verbatim>\<open>Wait\<close>, each with the schedule of the scan of its
  iteration. \<^verbatim>\<open>Wait\<close> returns on a mailbox that holds an event; when the list ends the
  loop is waiting. The result is the state and the traces of the iterations.
\<close>

fun LoopFrom ::
  "('i, 'r, 'v) ext \<Rightarrow> ('i, 'r, 'v) LoopState
   \<Rightarrow> ((EventType \<times> ('i, 'r, 'v) Payload) list \<times> sched) list
   \<Rightarrow> error + (('i, 'r, 'v) LoopState \<times> CycleTrace list)" where
  "LoopFrom E st [] = Inr (st, [])"
| "LoopFrom E st ((events, sch) # rest) =
     (case drain events None of
        Inl e \<Rightarrow> Inl e
      | Inr (stop, requestOpt) \<Rightarrow>
          if stop then Inr (st, [])
          else
            (case requestOpt of
               None \<Rightarrow> Inr (st, [])
             | Some request \<Rightarrow>
                 (case cycle E sch st request of
                    Inl e \<Rightarrow> Inl e
                  | Inr (st1, t) \<Rightarrow>
                      (case LoopFrom E st1 rest of
                         Inl e \<Rightarrow> Inl e
                       | Inr (st2, ts) \<Rightarrow> Inr (st2, t # ts)))))"

text \<open>\<^verbatim>\<open>Loop\<close> from its start: \<^verbatim>\<open>prevCount := 0\<close> (line 60).\<close>

definition Loop ::
  "('i, 'r, 'v) ext \<Rightarrow> 'v Matcher \<Rightarrow> (nat \<Rightarrow> ('i, 'r, 'v) Merger) \<Rightarrow> nat
   \<Rightarrow> ((EventType \<times> ('i, 'r, 'v) Payload) list \<times> sched) list
   \<Rightarrow> error + (('i, 'r, 'v) LoopState \<times> CycleTrace list)" where
  "Loop E m heap next wakes =
     LoopFrom E \<lparr>ls_m = m, ls_prevCount = 0, ls_heap = heap, ls_next = next\<rparr> wakes"

subsection \<open>Definitions for the proofs and the examples\<close>

text \<open>
  The slice of index \<open>j\<close> when \<open>P\<close> slices of \<open>q\<close> chunks are cut and the last takes the
  rest.
\<close>

definition part :: "'a list \<Rightarrow> nat \<Rightarrow> nat \<Rightarrow> nat \<Rightarrow> 'a list" where
  "part xs P q j = (if j = P - 1 then drop (j * q) xs else take q (drop (j * q) xs))"

text \<open>A matcher of two partitions, as \<^verbatim>\<open>NewMatcher\<close> builds it on two processors.\<close>

definition ex_m2 :: "nat Matcher" where
  "ex_m2 = NewMatcher 1 32 2 False False 0"

text \<open>
  Collaborators for the examples: an item is its own index, the first item of a chunk
  is read from the items it holds, a result is a number, a revision is a pair of a major
  and a minor number, and two revisions are compatible when their major numbers are
  equal.
\<close>

definition ex_ext :: "(nat, nat, nat \<times> nat) ext" where
  "ex_ext =
     \<lparr>Index = int,
      firstItem = (\<lambda>c. case items c of [] \<Rightarrow> None | x # xs \<Rightarrow> Some x),
      lastIndex = (\<lambda>c lo. case items c of [] \<Rightarrow> lo | x # xs \<Rightarrow> int (last (x # xs)) + 1),
      CountItems = (\<lambda>cs. length (concat (map items cs))),
      compatible = (\<lambda>a b. fst a = fst b),
      cacheable = (\<lambda>mg. True),
      ByRelevance = sort,
      ByRelevanceTac = (\<lambda>xs. rev (sort xs))\<rparr>"

text \<open>A pattern that matches the even items, and the empty pattern.\<close>

definition ex_pattern :: "(nat, nat) Pattern" where
  "ex_pattern =
     \<lparr>AsString = ''a'', IsEmpty = False, sortable = True, Match = (\<lambda>c. filter even (items c))\<rparr>"

definition ex_empty_pattern :: "(nat, nat) Pattern" where
  "ex_empty_pattern =
     \<lparr>AsString = [], IsEmpty = True, sortable = False, Match = (\<lambda>c. items c)\<rparr>"

definition ex_chunks :: "nat Chunk list" where
  "ex_chunks = [\<lparr>items = [4, 1, 2]\<rparr>, \<lparr>items = [3, 8, 6]\<rparr>, \<lparr>items = [10, 7]\<rparr>]"

definition ex_request :: "(nat, nat, nat \<times> nat) MatchRequest" where
  "ex_request =
     \<lparr>rq_chunks = ex_chunks, rq_pattern = ex_pattern, rq_final = True, rq_sort = True,
      rq_revision = (1, 0)\<rparr>"

text \<open>A matcher of two partitions that sorts, at the revision of the request.\<close>

definition ex_matcher :: "(nat \<times> nat) Matcher" where
  "ex_matcher = NewMatcher 1 32 2 True False (1, 0)"

text \<open>
  Two schedules without a reset: in the first the second worker is served first on both
  channels and the clock is late at once; in the second the first worker is served
  first and no progress is due.
\<close>

definition ex_sched :: sched where
  "ex_sched =
     \<lparr>sc_countOrder = [1, 0], sc_resultOrder = [1, 0], sc_peeks = [], sc_lates = [True, True]\<rparr>"

definition ex_sched_alt :: sched where
  "ex_sched_alt = \<lparr>sc_countOrder = [], sc_resultOrder = [0, 1], sc_peeks = [], sc_lates = []\<rparr>"

text \<open>A schedule whose second look at the request mailbox finds a reset.\<close>

definition ex_sched_reset :: sched where
  "ex_sched_reset =
     \<lparr>sc_countOrder = [], sc_resultOrder = [], sc_peeks = [False, True], sc_lates = [True]\<rparr>"

text \<open>
  Loop states for the examples, each at the start of \<^verbatim>\<open>Loop\<close> (\<^verbatim>\<open>prevCount\<close> is 0, the store
  holds no merger yet): with the matcher of the example; with a matcher that does not
  sort; and with a matcher at the revision \<open>(0, 0)\<close>, which is not compatible with the
  revision \<open>(1, 0)\<close> of the request.
\<close>

definition ex_state :: "(nat, nat, nat \<times> nat) LoopState" where
  "ex_state =
     \<lparr>ls_m = ex_matcher, ls_prevCount = 0, ls_heap = (\<lambda>a. EmptyMerger (0, 0)), ls_next = 0\<rparr>"

definition ex_state_unsorted :: "(nat, nat, nat \<times> nat) LoopState" where
  "ex_state_unsorted = ex_state\<lparr>ls_m := ex_matcher\<lparr>m_sort := False\<rparr>\<rparr>"

definition ex_state_old :: "(nat, nat, nat \<times> nat) LoopState" where
  "ex_state_old = ex_state\<lparr>ls_m := ex_matcher\<lparr>m_revision := (0, 0)\<rparr>\<rparr>"

text \<open>
  The merger that the scan of the example returns, and the loop state after an iteration
  that scanned the example from the start of the loop and did not move \<^verbatim>\<open>prevCount\<close>.
\<close>

definition ex_merger :: "(nat, nat, nat \<times> nat) Merger" where
  "ex_merger = NewMerger ex_pattern [[2, 4], [6, 8, 10]] True False (1, 0) 4 8"

definition ex_state_done :: "(nat, nat, nat \<times> nat) LoopState" where
  "ex_state_done =
     \<lparr>ls_m = ex_matcher
         \<lparr>m_slab := [True, True],
          m_eventBox := [EvtSearchProgress (1 / 3), EvtSearchProgress (2 / 3), EvtSearchFin 0],
          m_mergerCache := [''a'' \<mapsto> 0]\<rparr>,
      ls_prevCount = 0,
      ls_heap = (\<lambda>a. EmptyMerger (0, 0))(0 := ex_merger\<lparr>mg_final := True\<rparr>),
      ls_next = 1\<rparr>"

section \<open>The partitioner covers the chunks\<close>

lemma slice_ok: "s \<le> e \<Longrightarrow> e \<le> length xs \<Longrightarrow> slice xs s e = Inr (take (e - s) (drop s xs))"
  by (simp add: slice_def)

text \<open>The loop fills the slots from \<open>i\<close> on with the parts and keeps the slots before.\<close>

lemma sliceLoop_eq:
  "i \<le> P \<Longrightarrow> length slices = P \<Longrightarrow> P * q \<le> length xs \<Longrightarrow>
   sliceLoop xs P q i slices = Inr (take i slices @ map (part xs P q) [i..<P])"
proof (induction xs P q i slices rule: sliceLoop.induct)
  case (1 chunks partitions perSlice i slices)
  show ?case
  proof (cases "i < partitions")
    case False
    with 1 show ?thesis by (simp add: sliceLoop.simps)
  next
    case True
    define e where "e = (if i = partitions - 1 then length chunks else i * perSlice + perSlice)"
    have le: "(i + 1) * perSlice \<le> partitions * perSlice"
      using True by (intro mult_le_mono1) simp
    have b1: "i * perSlice \<le> e"
      using True le 1(4) by (auto simp: e_def)
    have b2: "e \<le> length chunks"
      using True le 1(4) by (auto simp: e_def mult.commute)
    have sl: "slice chunks (i * perSlice) e = Inr (part chunks partitions perSlice i)"
      using b1 b2 by (auto simp: slice_ok part_def e_def)
    have IH: "sliceLoop chunks partitions perSlice (i + 1) (slices[i := part chunks partitions perSlice i]) =
       Inr (take (i + 1) (slices[i := part chunks partitions perSlice i])
            @ map (part chunks partitions perSlice) [i + 1..<partitions])"
      using 1(1)[OF True refl refl refl, of "part chunks partitions perSlice i"] sl True 1(3,4)
      by (simp add: e_def)
    have tk: "take (i + 1) (slices[i := part chunks partitions perSlice i]) =
        take i slices @ [part chunks partitions perSlice i]"
      using True 1(3) by (simp add: take_Suc_conv_app_nth)
    show ?thesis
      using True sl IH tk
      by (subst sliceLoop.simps) (simp add: e_def Let_def upt_conv_Cons)
  qed
qed

lemma concat_parts_prefix:
  "k \<le> P - 1 \<Longrightarrow> concat (map (part xs P q) [0..<k]) = take (k * q) xs"
proof (induction k)
  case 0 then show ?case by simp
next
  case (Suc k)
  then have "part xs P q k = take q (drop (k * q) xs)" by (simp add: part_def)
  moreover have "take (Suc k * q) xs = take (k * q) xs @ take q (drop (k * q) xs)"
    using take_add [of "k * q" q xs] by (simp add: add.commute)
  ultimately show ?case using Suc by simp
qed

lemma concat_parts: "0 < P \<Longrightarrow> concat (map (part xs P q) [0..<P]) = xs"
proof -
  assume P: "0 < P"
  then have up: "[0..<P] = [0..<P - 1] @ [P - 1]"
    by (metis Suc_diff_1 upt_Suc_append zero_le)
  have "concat (map (part xs P q) [0..<P]) = take ((P - 1) * q) xs @ part xs P q (P - 1)"
    by (subst up) (simp add: concat_parts_prefix)
  then show ?thesis by (simp add: part_def)
qed

lemma length_part_inner:
  "j < P - 1 \<Longrightarrow> P * q \<le> length xs \<Longrightarrow> length (part xs P q j) = q"
proof -
  assume j: "j < P - 1" and b: "P * q \<le> length xs"
  have "(j + 1) * q \<le> P * q" using j by (intro mult_le_mono1) simp
  with b have "j * q + q \<le> length xs" by simp
  with j show ?thesis by (simp add: part_def)
qed

lemma length_part_last:
  "length (part xs P q (P - 1)) = length xs - (P - 1) * q"
  by (simp add: part_def)

lemma part_nonempty:
  assumes "j < P" "0 < q" "P * q \<le> length xs"
  shows "part xs P q j \<noteq> []"
proof (cases "j = P - 1")
  case True
  have "(P - 1) * q + q = P * q" using assms(1) by (cases P) simp_all
  with assms have "(P - 1) * q < length xs" by linarith
  with True show ?thesis by (simp add: part_def)
next
  case False
  with assms have "length (part xs P q j) = q" by (intro length_part_inner) auto
  with assms show ?thesis by auto
qed

lemma parts_nonempty:
  assumes "0 < q" "P * q \<le> length xs"
  shows "[] \<notin> set (map (part xs P q) [0..<P])"
  using assms part_nonempty [of _ P q xs] by (auto simp: image_iff) metis

lemma map_length_parts:
  assumes "0 < P" "P * q \<le> length xs"
  shows "map length (map (part xs P q) [0..<P]) = replicate (P - 1) q @ [length xs - (P - 1) * q]"
proof -
  have up: "[0..<P] = [0..<P - 1] @ [P - 1]"
    using assms(1) by (metis Suc_diff_1 upt_Suc_append zero_le)
  have "map (\<lambda>j. length (part xs P q j)) [0..<P - 1] = map (\<lambda>j. q) [0..<P - 1]"
    using assms(2) by (intro map_cong refl length_part_inner) auto
  then have "map length (map (part xs P q) [0..<P - 1]) = replicate (P - 1) q"
    by (simp add: map_replicate_const comp_def)
  then show ?thesis
    using length_part_last [of xs P q] by (subst up) (simp del: upt_Suc)
qed

lemma last_size:
  assumes "0 < (P::nat)"
  shows "N - (P - 1) * (N div P) = N div P + N mod P"
proof -
  have "N = P * (N div P) + N mod P" by simp
  moreover have "P * (N div P) = (P - 1) * (N div P) + N div P"
    using assms by (cases P) simp_all
  ultimately show ?thesis by linarith
qed

text \<open>
  With a positive partition count \<^verbatim>\<open>sliceChunks\<close> does not panic: it cuts one chunk per
  slice when the chunks are fewer than the partitions, and \<open>N div P\<close> chunks per slice
  otherwise.
\<close>

lemma sliceChunks_eq:
  assumes "0 < m_partitions m"
  shows "sliceChunks m chunks =
    Inr (if length chunks < m_partitions m
         then map (part chunks (length chunks) 1) [0..<length chunks]
         else map (part chunks (m_partitions m) (length chunks div m_partitions m))
                [0..<m_partitions m])"
proof (cases "length chunks < m_partitions m")
  case True
  then have "length chunks div m_partitions m = 0" by simp
  with assms True show ?thesis
    by (simp add: sliceChunks_def Let_def sliceLoop_eq)
next
  case False
  then have "length chunks div m_partitions m \<noteq> 0" using assms
    by (simp add: div_eq_0_iff)
  moreover have "m_partitions m * (length chunks div m_partitions m) \<le> length chunks" by simp
  ultimately show ?thesis using assms False
    by (simp add: sliceChunks_def Let_def sliceLoop_eq)
qed

text \<open>
  Claim C3. For a non-empty chunk sequence of length \<open>N\<close> and a partition count \<open>P\<close> (positive,
  as \<^verbatim>\<open>NewMatcher\<close> configures it), \<^verbatim>\<open>sliceChunks\<close> returns slices whose concatenation in
  index order is the input sequence, none of them empty. When \<open>N < P\<close> there are \<open>N\<close>
  slices of one chunk each; otherwise there are \<open>P\<close> slices, each of \<open>N div P\<close> chunks but
  the last, which has the \<open>N mod P\<close> remaining chunks as well.
\<close>

theorem sliceChunks_partition:
  assumes "chunks \<noteq> []" and "0 < m_partitions m"
  shows "\<exists>slices. sliceChunks m chunks = Inr slices
           \<and> concat slices = chunks
           \<and> [] \<notin> set slices
           \<and> map length slices =
               (if length chunks < m_partitions m then replicate (length chunks) 1
                else replicate (m_partitions m - 1) (length chunks div m_partitions m)
                     @ [length chunks div m_partitions m + length chunks mod m_partitions m])"
proof (cases "length chunks < m_partitions m")
  case True
  let ?N = "length chunks"
  have N: "0 < ?N" using assms(1) by simp
  have eq: "sliceChunks m chunks = Inr (map (part chunks ?N 1) [0..<?N])"
    using sliceChunks_eq [OF assms(2), of chunks] True by simp
  have len: "map length (map (part chunks ?N 1) [0..<?N]) = replicate (?N - 1) 1 @ [?N - (?N - 1) * 1]"
    using N by (intro map_length_parts) simp_all
  have "replicate (?N - 1) (1::nat) @ [?N - (?N - 1) * 1] = replicate ?N 1"
    using N by (cases ?N) (simp_all add: replicate_append_same)
  with len have len': "map length (map (part chunks ?N 1) [0..<?N]) = replicate ?N 1" by simp
  have ne: "[] \<notin> set (map (part chunks ?N 1) [0..<?N])"
    by (intro parts_nonempty) simp_all
  show ?thesis
    using eq True concat_parts [OF N, of chunks 1] len' ne by simp
next
  case False
  let ?N = "length chunks" and ?P = "m_partitions m"
  let ?q = "?N div ?P"
  have q: "0 < ?q" using False assms(2) by (simp add: div_greater_zero_iff)
  have b: "?P * ?q \<le> ?N" by simp
  have eq: "sliceChunks m chunks = Inr (map (part chunks ?P ?q) [0..<?P])"
    using sliceChunks_eq [OF assms(2), of chunks] False by simp
  have len: "map length (map (part chunks ?P ?q) [0..<?P]) = replicate (?P - 1) ?q @ [?q + ?N mod ?P]"
    using map_length_parts [OF assms(2) b] last_size [OF assms(2), of ?N] by simp
  have ne: "[] \<notin> set (map (part chunks ?P ?q) [0..<?P])"
    using q b by (rule parts_nonempty)
  show ?thesis
    using eq False concat_parts [OF assms(2), of chunks ?q] len ne by simp
qed

text \<open>Five chunks on two partitions: a slice of two and a slice of three.\<close>

theorem sliceChunks_partition_witness:
  "[1, 2, 3, 4, 5 :: nat] \<noteq> [] \<and> 0 < m_partitions ex_m2
   \<and> sliceChunks ex_m2 [1, 2, 3, 4, 5 :: nat] = Inr [[1, 2], [3, 4, 5]]
   \<and> (\<exists>slices. sliceChunks ex_m2 [1, 2, 3, 4, 5 :: nat] = Inr slices
         \<and> concat slices = [1, 2, 3, 4, 5] \<and> [] \<notin> set slices
         \<and> map length slices =
               (if length [1, 2, 3, 4, 5 :: nat] < m_partitions ex_m2
                then replicate (length [1, 2, 3, 4, 5 :: nat]) 1
                else replicate (m_partitions ex_m2 - 1)
                       (length [1, 2, 3, 4, 5 :: nat] div m_partitions ex_m2)
                     @ [length [1, 2, 3, 4, 5 :: nat] div m_partitions ex_m2
                        + length [1, 2, 3, 4, 5 :: nat] mod m_partitions ex_m2]))"
proof -
  have ne: "[1, 2, 3, 4, 5 :: nat] \<noteq> []" by simp
  have p: "0 < m_partitions ex_m2" by (simp add: ex_m2_def NewMatcher_def)
  have v: "sliceChunks ex_m2 [1, 2, 3, 4, 5 :: nat] = Inr [[1, 2], [3, 4, 5]]"
    by code_simp
  show ?thesis
    using sliceChunks_partition [OF ne p] ne p v by blast
qed

section \<open>The scan worker\<close>

lemma appendAll_concat: "appendAll acc xss = acc @ concat xss"
  by (induction xss arbitrary: acc) simp_all

lemma answer_simps [simp]: "answer [] = False" "answer (b # bs) = b"
  by (simp_all add: answer_def)

lemma workerLoop_all:
  "True \<notin> set (take (length cs) obs) \<Longrightarrow> idx + length cs = length allMatches \<Longrightarrow>
   workerLoop p obs cs idx count allMatches sent =
     (False, count + length (concat (map (Match p) cs)),
      take idx allMatches @ map (Match p) cs, sent @ map (\<lambda>c. length (Match p c)) cs)"
proof (induction cs arbitrary: obs idx count allMatches sent)
  case Nil
  then show ?case by simp
next
  case (Cons c cs)
  have a: "\<not> answer obs" using Cons.prems(1) by (cases obs) auto
  have t: "True \<notin> set (take (length cs) (tl obs))" using Cons.prems(1) by (cases obs) auto
  have l: "(idx + 1) + length cs = length (allMatches[idx := Match p c])"
    using Cons.prems(2) by simp
  have tk: "take (idx + 1) (allMatches[idx := Match p c]) = take idx allMatches @ [Match p c]"
    using Cons.prems(2) by (simp add: take_Suc_conv_app_nth)
  show ?case
    using a Cons.IH [OF t l] tk by (simp add: Let_def)
qed

lemma workerLoop_stop:
  "True \<in> set (take (length cs) obs) \<Longrightarrow>
   \<exists>count1 all1. workerLoop p obs cs idx count allMatches sent =
     (True, count1, all1, sent @ map (\<lambda>c. length (Match p c)) (take (length (takeWhile Not obs)) cs))"
proof (induction cs arbitrary: obs idx count allMatches sent)
  case Nil
  then show ?case by simp
next
  case (Cons c cs)
  then obtain b bs where obs: "obs = b # bs" by (cases obs) auto
  show ?case
  proof (cases b)
    case True
    with obs show ?thesis by (simp add: Let_def)
  next
    case False
    with obs Cons.prems have "True \<in> set (take (length cs) bs)" by simp
    from Cons.IH [OF this, of "idx + 1" "count + length (Match p c)"
        "allMatches[idx := Match p c]" "sent @ [length (Match p c)]"]
    obtain count1 all1 where
      "workerLoop p bs cs (idx + 1) (count + length (Match p c)) (allMatches[idx := Match p c])
         (sent @ [length (Match p c)]) =
       (True, count1, all1,
        (sent @ [length (Match p c)])
        @ map (\<lambda>c. length (Match p c)) (take (length (takeWhile Not bs)) cs))"
      by blast
    with False obs show ?thesis by (simp add: Let_def)
  qed
qed

lemma worker_unobserved:
  "True \<notin> set (take (length chunks) obs) \<Longrightarrow>
   worker E m request obs idx chunks =
     \<lparr>w_sent = map (\<lambda>c. length (Match (rq_pattern request) c)) chunks,
      w_handed = [\<lparr>pr_index = idx,
                   pr_matches = localSort E m request (concat (map (Match (rq_pattern request)) chunks))\<rparr>]\<rparr>"
proof -
  assume a: "True \<notin> set (take (length chunks) obs)"
  have "workerLoop (rq_pattern request) obs chunks 0 0 (replicate (length chunks) []) [] =
     (False, 0 + length (concat (map (Match (rq_pattern request)) chunks)),
      take 0 (replicate (length chunks) []) @ map (Match (rq_pattern request)) chunks,
      [] @ map (\<lambda>c. length (Match (rq_pattern request) c)) chunks)"
    using a by (intro workerLoop_all) simp_all
  then show ?thesis by (simp add: worker_def appendAll_concat Let_def)
qed

lemma worker_stopped:
  "True \<in> set (take (length chunks) obs) \<Longrightarrow>
   worker E m request obs idx chunks =
     \<lparr>w_sent = map (\<lambda>c. length (Match (rq_pattern request) c))
                 (take (length (takeWhile Not obs)) chunks),
      w_handed = []\<rparr>"
proof -
  assume a: "True \<in> set (take (length chunks) obs)"
  from workerLoop_stop [OF a, of "rq_pattern request" 0 0 "replicate (length chunks) []" "[]"]
  show ?thesis by (auto simp: worker_def)
qed

section \<open>The channels and the supervisor\<close>

lemma length_concat_update:
  "i < length qs \<Longrightarrow> qs ! i = x # xs \<Longrightarrow> length (concat qs) = Suc (length (concat (qs[i := xs])))"
proof -
  assume i: "i < length qs" and q: "qs ! i = x # xs"
  have "qs = take i qs @ (x # xs) # drop (Suc i) qs"
    using i q by (metis id_take_nth_drop)
  moreover have "qs[i := xs] = take i qs @ xs # drop (Suc i) qs"
    using i by (simp add: upd_conv_take_nth_drop)
  ultimately show ?thesis
    by (metis (no_types, lifting) add_Suc_right append_Cons concat.simps(2) concat_append length_Cons length_append)
qed

lemma set_concat_update:
  "i < length qs \<Longrightarrow> qs ! i = x # xs \<Longrightarrow> set (concat qs) = insert x (set (concat (qs[i := xs])))"
proof -
  assume i: "i < length qs" and q: "qs ! i = x # xs"
  have a: "qs = take i qs @ (x # xs) # drop (Suc i) qs"
    using i q by (metis id_take_nth_drop)
  have b: "qs[i := xs] = take i qs @ xs # drop (Suc i) qs"
    using i by (simp add: upd_conv_take_nth_drop)
  have "set (concat (take i qs @ (x # xs) # drop (Suc i) qs)) =
        insert x (set (concat (take i qs @ xs # drop (Suc i) qs)))"
    by auto
  with a b show ?thesis by metis
qed

lemma length_interleave: "length (interleave order qs) = length (concat qs)"
proof (induction order arbitrary: qs)
  case Nil
  then show ?case by simp
next
  case (Cons i order)
  show ?case
  proof (cases "i < length qs")
    case False
    with Cons show ?thesis by simp
  next
    case True
    show ?thesis
    proof (cases "qs ! i")
      case Nil
      with True Cons show ?thesis by simp
    next
      case (Cons x xs)
      with True Cons.IH [of "qs[i := xs]"] length_concat_update [OF True Cons]
      show ?thesis by simp
    qed
  qed
qed

lemma set_interleave: "set (interleave order qs) = set (concat qs)"
proof (induction order arbitrary: qs)
  case Nil
  then show ?case by simp
next
  case (Cons i order)
  show ?case
  proof (cases "i < length qs")
    case False
    with Cons show ?thesis by simp
  next
    case True
    show ?thesis
    proof (cases "qs ! i")
      case Nil
      with True Cons show ?thesis by simp
    next
      case (Cons x xs)
      with True Cons.IH [of "qs[i := xs]"] set_concat_update [OF True Cons]
      show ?thesis by simp
    qed
  qed
qed

lemma collectResults_length:
  "collectResults n arr prs = Inr out \<Longrightarrow> length out = length prs"
  by (induction n arr prs rule: collectResults.induct) (auto split: if_splits)

lemma collectResults_nth:
  assumes "length arr = n" "\<forall>pr \<in> set arr. pr_index pr < length prs \<and> pr_matches pr = f (pr_index pr)"
  shows "\<exists>out. collectResults n arr prs = Inr out \<and> length out = length prs
          \<and> (\<forall>j < length prs. out ! j = (if j \<in> pr_index ` set arr then f j else prs ! j))"
  using assms
proof (induction n arr prs rule: collectResults.induct)
  case (1 arrivals partialResults)
  then show ?case by simp
next
  case (2 n partialResults)
  then show ?case by simp
next
  case (3 n pr arrivals partialResults)
  let ?prs = "partialResults[pr_index pr := pr_matches pr]"
  have lt: "pr_index pr < length partialResults" and m: "pr_matches pr = f (pr_index pr)"
    using 3(3) by auto
  have "\<exists>out. collectResults n arrivals ?prs = Inr out \<and> length out = length ?prs
          \<and> (\<forall>j < length ?prs. out ! j = (if j \<in> pr_index ` set arrivals then f j else ?prs ! j))"
    using 3 lt by (intro 3(1)) auto
  then obtain out where o: "collectResults n arrivals ?prs = Inr out" "length out = length partialResults"
    and n: "\<forall>j < length partialResults. out ! j = (if j \<in> pr_index ` set arrivals then f j else ?prs ! j)"
    by auto
  have "\<forall>j < length partialResults.
          out ! j = (if j \<in> pr_index ` set (pr # arrivals) then f j else partialResults ! j)"
    using n lt m by (auto simp: nth_list_update)
  with o lt show ?case by simp
qed

lemma countLoop_steps:
  "count < n \<Longrightarrow> countLoop n msgs peeks lates count mc prog = (ex, prog') \<Longrightarrow>
   (\<exists>ks. prog' = prog @ map (\<lambda>k. of_nat k / of_nat n) ks \<and> sorted_wrt (<) ks
         \<and> (\<forall>k \<in> set ks. count < k \<and> k < n))
   \<and> (\<forall>c mc'. ex = Collected c mc' \<longrightarrow> c = n)"
proof (induction msgs arbitrary: peeks lates count mc prog)
  case Nil
  then have "prog' = prog @ map (\<lambda>k. of_nat k / of_nat n) []" "ex = Starved" by simp_all
  then show ?case by (metis empty_iff list.set(1) loopExit.distinct(3) sorted_wrt.simps(1))
next
  case (Cons x msgs)
  show ?case
  proof (cases "count + 1 = n")
    case True
    with Cons.prems have "prog' = prog @ map (\<lambda>k. of_nat k / of_nat n) []" "ex = Collected n (mc + x)"
      by (simp_all add: Let_def)
    then show ?thesis
      by (metis empty_iff list.set(1) loopExit.inject sorted_wrt.simps(1))
  next
    case False
    then have lt: "count + 1 < n" using Cons.prems(1) by simp
    show ?thesis
    proof (cases "answer peeks")
      case True
      with False Cons.prems have "prog' = prog @ map (\<lambda>k. of_nat k / of_nat n) []" "ex = Reset"
        by (simp_all add: Let_def)
      then show ?thesis
        by (metis empty_iff list.set(1) loopExit.distinct(1) sorted_wrt.simps(1))
    next
      case np: False
      show ?thesis
      proof (cases "answer lates")
        case True
        with np False Cons.prems(2)
        have run: "countLoop n msgs (tl peeks) (tl lates) (count + 1) (mc + x)
                 (prog @ [of_nat (count + 1) / of_nat n]) = (ex, prog')"
          by (simp add: Let_def)
        from Cons.IH [OF lt run] obtain ks where
          ks: "prog' = (prog @ [of_nat (count + 1) / of_nat n]) @ map (\<lambda>k. of_nat k / of_nat n) ks"
              "sorted_wrt (<) ks" "\<forall>k \<in> set ks. count + 1 < k \<and> k < n"
          and c: "\<forall>c mc'. ex = Collected c mc' \<longrightarrow> c = n"
          by blast
        have "prog' = prog @ map (\<lambda>k. of_nat k / of_nat n) ((count + 1) # ks)"
          using ks(1) by simp
        moreover have "sorted_wrt (<) ((count + 1) # ks)" using ks(2,3) by auto
        moreover have "\<forall>k \<in> set ((count + 1) # ks). count < k \<and> k < n"
          using ks(3) lt by auto
        ultimately show ?thesis using c by blast
      next
        case nl: False
        with np False Cons.prems(2)
        have run: "countLoop n msgs (tl peeks) (tl lates) (count + 1) (mc + x) prog = (ex, prog')"
          by (simp add: Let_def)
        from Cons.IH [OF lt run] obtain ks where
          ks: "prog' = prog @ map (\<lambda>k. of_nat k / of_nat n) ks"
              "sorted_wrt (<) ks" "\<forall>k \<in> set ks. count + 1 < k \<and> k < n"
          and c: "\<forall>c mc'. ex = Collected c mc' \<longrightarrow> c = n"
          by blast
        have "\<forall>k \<in> set ks. count < k \<and> k < n" using ks(3) by auto
        with ks(1,2) c show ?thesis by blast
      qed
    qed
  qed
qed

lemma countLoop_fed:
  "count < n \<Longrightarrow> n - count \<le> length msgs \<Longrightarrow>
   fst (countLoop n msgs peeks lates count mc prog) \<noteq> Starved"
proof (induction msgs arbitrary: peeks lates count mc prog)
  case Nil
  then show ?case by simp
next
  case (Cons x msgs)
  show ?case
  proof (cases "count + 1 = n")
    case True
    then show ?thesis by (simp add: Let_def)
  next
    case False
    then have "count + 1 < n" "n - (count + 1) \<le> length msgs" using Cons.prems by simp_all
    from Cons.IH [OF this] False show ?thesis by (simp add: Let_def)
  qed
qed

lemma ratios_increasing:
  fixes ks :: "nat list"
  assumes "sorted_wrt (<) ks" "0 < n"
  shows "sorted_wrt (<) (map (\<lambda>k. (of_nat k :: rat) / of_nat n) ks)"
proof -
  have "\<And>a b. a < b \<Longrightarrow> (of_nat a :: rat) / of_nat n < of_nat b / of_nat n"
    using assms(2) by (simp add: divide_strict_right_mono)
  then show ?thesis
    using assms(1) by (simp add: sorted_wrt_map) (erule sorted_wrt_mono_rel [rotated], blast)
qed

lemma spawn_Inr:
  "spawn E m request idx slices slab = Inr (slab', ws) \<Longrightarrow>
   ws = map (\<lambda>(i, cs). worker E m request [] i cs) (zip [idx..<idx + length slices] slices)
   \<and> length slab' = length slab"
proof (induction slices arbitrary: idx slab slab' ws)
  case Nil
  then show ?case by simp
next
  case (Cons cs slices)
  let ?slab1 = "if \<not> slab ! idx then slab[idx := True] else slab"
  from Cons.prems have lt: "idx < length slab" by (auto split: if_splits)
  from Cons.prems lt obtain ws1 where
    r: "spawn E m request (idx + 1) slices ?slab1 = Inr (slab', ws1)"
    and w: "ws = worker E m request [] idx cs # ws1"
    by (auto simp: Let_def split: sum.splits prod.splits)
  from Cons.IH [OF r] have
    "ws1 = map (\<lambda>(i, cs). worker E m request [] i cs) (zip [idx + 1..<idx + 1 + length slices] slices)"
    "length slab' = length slab" by auto
  moreover have "[idx..<idx + length (cs # slices)] = idx # [idx + 1..<idx + 1 + length slices]"
    by (subst upt_rec) simp
  ultimately show ?case using w by simp
qed

lemma spawn_total:
  "idx + length slices \<le> length slab \<Longrightarrow> \<exists>slab' ws. spawn E m request idx slices slab = Inr (slab', ws)"
proof (induction slices arbitrary: idx slab)
  case Nil
  then show ?case by simp
next
  case (Cons cs slices)
  let ?slab1 = "if \<not> slab ! idx then slab[idx := True] else slab"
  have "(idx + 1) + length slices \<le> length ?slab1" using Cons.prems by simp
  from Cons.IH [OF this] obtain slab' ws where
    "spawn E m request (idx + 1) slices ?slab1 = Inr (slab', ws)" by blast
  moreover have "idx < length slab" using Cons.prems by simp
  ultimately show ?case by (simp add: Let_def)
qed

lemma collect_handed:
  assumes ws: "ws = map (\<lambda>(i, cs). worker E m request [] i cs) (zip [0..<length slices] slices)"
  shows "collectResults (length slices) (interleave order (map w_handed ws)) (replicate (length slices) [])
         = Inr (map (\<lambda>cs. localSort E m request (concat (map (Match (rq_pattern request)) cs))) slices)"
proof -
  let ?n = "length slices"
  let ?R = "\<lambda>cs. localSort E m request (concat (map (Match (rq_pattern request)) cs))"
  let ?f = "\<lambda>j. ?R (slices ! j)"
  let ?arr = "interleave order (map w_handed ws)"
  have h: "map w_handed ws = map (\<lambda>(i, cs). [\<lparr>pr_index = i, pr_matches = ?R cs\<rparr>]) (zip [0..<?n] slices)"
    unfolding ws by (simp add: worker_unobserved split_def)
  have c: "concat (map w_handed ws) = map (\<lambda>(i, cs). \<lparr>pr_index = i, pr_matches = ?R cs\<rparr>) (zip [0..<?n] slices)"
    unfolding h by (induction "zip [0..<?n] slices") (auto simp: split_def)
  have z: "zip [0..<?n] slices = map (\<lambda>j. (j, slices ! j)) [0..<?n]"
    by (intro nth_equalityI) simp_all
  have c': "concat (map w_handed ws) = map (\<lambda>j. \<lparr>pr_index = j, pr_matches = ?f j\<rparr>) [0..<?n]"
    unfolding c z by simp
  have len: "length ?arr = ?n" by (simp add: length_interleave c')
  have st: "set ?arr = (\<lambda>j. \<lparr>pr_index = j, pr_matches = ?f j\<rparr>) ` {0..<?n}"
    by (simp add: set_interleave c')
  have all: "\<forall>pr \<in> set ?arr. pr_index pr < ?n \<and> pr_matches pr = ?f (pr_index pr)"
    unfolding st by auto
  have "\<exists>out. collectResults ?n ?arr (replicate ?n []) = Inr out \<and> length out = ?n
          \<and> (\<forall>j < ?n. out ! j = (if j \<in> pr_index ` set ?arr then ?f j else replicate ?n [] ! j))"
    using collectResults_nth [OF len, of "replicate ?n []" ?f] all by simp
  then obtain out where
    o: "collectResults ?n ?arr (replicate ?n []) = Inr out" "length out = ?n"
    and nth: "\<forall>j < ?n. out ! j = (if j \<in> pr_index ` set ?arr then ?f j else replicate ?n [] ! j)"
    by auto
  have "\<forall>j < ?n. j \<in> pr_index ` set ?arr" unfolding st by force
  with nth have "\<forall>j < ?n. out ! j = ?f j" by simp
  with o(2) have "out = map ?R slices" by (intro nth_equalityI) simp_all
  with o(1) show ?thesis by simp
qed

lemma sent_total:
  assumes ws: "ws = map (\<lambda>(i, cs). worker E m request [] i cs) (zip [0..<length slices] slices)"
  shows "length (interleave order (map w_sent ws)) = length (concat slices)"
proof -
  have h: "map w_sent ws = map (\<lambda>(i, cs). map (\<lambda>c. length (Match (rq_pattern request) c)) cs) (zip [0..<length slices] slices)"
    unfolding ws by (simp add: worker_unobserved split_def)
  have z: "zip [0..<length slices] slices = map (\<lambda>j. (j, slices ! j)) [0..<length slices]"
    by (intro nth_equalityI) simp_all
  have "map w_sent ws = map (map (\<lambda>c. length (Match (rq_pattern request) c))) slices"
    unfolding h z by (intro nth_equalityI) simp_all
  then have "concat (map w_sent ws) = map (\<lambda>c. length (Match (rq_pattern request) c)) (concat slices)"
    by (simp add: map_concat)
  then show ?thesis by (simp add: length_interleave)
qed

lemma scan_empty:
  "rq_chunks request = [] \<Longrightarrow>
   scan E m request sch =
     Inr (m, \<lparr>so_merger = Some (EmptyMerger (rq_revision request)), so_cancelled = False,
              so_progress = [], so_count = 0, so_dispatched = []\<rparr>)"
  by (simp add: scan_def)

lemma scan_pass:
  "rq_chunks request \<noteq> [] \<Longrightarrow> IsEmpty (rq_pattern request) \<Longrightarrow>
   scan E m request sch =
     Inr (m, \<lparr>so_merger = Some (PassMerger (rq_chunks request) (m_tac m) (rq_revision request)),
              so_cancelled = False, so_progress = [], so_count = 0, so_dispatched = []\<rparr>)"
  by (simp add: scan_def)

lemma scan_no_item:
  "rq_chunks request \<noteq> [] \<Longrightarrow> \<not> IsEmpty (rq_pattern request) \<Longrightarrow>
   firstItem E (rq_chunks request ! 0) = None \<Longrightarrow> scan E m request sch = Inl IndexOutOfRange"
  by (simp add: scan_def)

lemma scan_general_cases:
  assumes "scan E m request sch = Inr (m', out)" "rq_chunks request \<noteq> []"
    "\<not> IsEmpty (rq_pattern request)"
  obtains item0 slices slab ws ex progress where
    "firstItem E (rq_chunks request ! 0) = Some item0"
    "sliceChunks m (rq_chunks request) = Inr slices"
    "spawn E m request 0 slices (m_slab m) = Inr (slab, ws)"
    "countLoop (length (rq_chunks request)) (interleave (sc_countOrder sch) (map w_sent ws))
       (sc_peeks sch) (sc_lates sch) 0 0 [] = (ex, progress)"
    "m' = m\<lparr>m_slab := slab, m_eventBox := m_eventBox m @ map EvtSearchProgress progress\<rparr>"
    "(ex = Reset \<and> out = \<lparr>so_merger = None, so_cancelled = True, so_progress = progress,
                            so_count = 0, so_dispatched = slices\<rparr>)
     \<or> (\<exists>c mc prs. ex = Collected c mc
           \<and> collectResults (length slices) (interleave (sc_resultOrder sch) (map w_handed ws))
                 (replicate (length slices) []) = Inr prs
           \<and> out = \<lparr>so_merger = Some (NewMerger (rq_pattern request) prs
                                        (m_sort m \<and> sortable (rq_pattern request)) (m_tac m)
                                        (rq_revision request) (Index E item0)
                                        (lastIndex E (rq_chunks request ! (length (rq_chunks request) - 1))
                                           (Index E item0))),
                     so_cancelled = False, so_progress = progress, so_count = c,
                     so_dispatched = slices\<rparr>)"
  using assms
  by (auto simp: scan_def Let_def split: option.splits sum.splits prod.splits loopExit.splits)

lemma length_slices_le:
  assumes "0 < m_partitions m" "sliceChunks m chunks = Inr slices"
  shows "length slices \<le> m_partitions m" "concat slices = chunks"
proof -
  from sliceChunks_eq [OF assms(1), of chunks] assms(2)
  have s: "slices = (if length chunks < m_partitions m
         then map (part chunks (length chunks) 1) [0..<length chunks]
         else map (part chunks (m_partitions m) (length chunks div m_partitions m))
                [0..<m_partitions m])" by simp
  then show "length slices \<le> m_partitions m" by (simp split: if_splits)
  show "concat slices = chunks"
  proof (cases "chunks = []")
    case True
    with s show ?thesis by simp
  next
    case False
    then have N: "0 < length chunks" by simp
    show ?thesis
    proof (cases "length chunks < m_partitions m")
      case True
      with s concat_parts [OF N, of chunks 1] show ?thesis by simp
    next
      case False
      with s concat_parts [OF assms(1), of chunks "length chunks div m_partitions m"]
      show ?thesis by simp
    qed
  qed
qed

lemma scan_collected:
  assumes "scan E m request sch = Inr (m', out)" "rq_chunks request \<noteq> []"
    "\<not> IsEmpty (rq_pattern request)" "\<not> so_cancelled out"
  shows "\<exists>item0 slices.
      firstItem E (rq_chunks request ! 0) = Some item0
    \<and> sliceChunks m (rq_chunks request) = Inr slices
    \<and> so_dispatched out = slices
    \<and> so_count out = length (rq_chunks request)
    \<and> so_merger out =
        Some (NewMerger (rq_pattern request)
                (map (\<lambda>cs. localSort E m request (concat (map (Match (rq_pattern request)) cs))) slices)
                (m_sort m \<and> sortable (rq_pattern request)) (m_tac m) (rq_revision request)
                (Index E item0)
                (lastIndex E (rq_chunks request ! (length (rq_chunks request) - 1)) (Index E item0)))"
proof -
  from assms(1-3) obtain item0 slices slab ws ex progress where
    i: "firstItem E (rq_chunks request ! 0) = Some item0"
    and s: "sliceChunks m (rq_chunks request) = Inr slices"
    and sp: "spawn E m request 0 slices (m_slab m) = Inr (slab, ws)"
    and cl: "countLoop (length (rq_chunks request)) (interleave (sc_countOrder sch) (map w_sent ws))
       (sc_peeks sch) (sc_lates sch) 0 0 [] = (ex, progress)"
    and o: "(ex = Reset \<and> out = \<lparr>so_merger = None, so_cancelled = True, so_progress = progress,
                            so_count = 0, so_dispatched = slices\<rparr>)
     \<or> (\<exists>c mc prs. ex = Collected c mc
           \<and> collectResults (length slices) (interleave (sc_resultOrder sch) (map w_handed ws))
                 (replicate (length slices) []) = Inr prs
           \<and> out = \<lparr>so_merger = Some (NewMerger (rq_pattern request) prs
                                        (m_sort m \<and> sortable (rq_pattern request)) (m_tac m)
                                        (rq_revision request) (Index E item0)
                                        (lastIndex E (rq_chunks request ! (length (rq_chunks request) - 1))
                                           (Index E item0))),
                     so_cancelled = False, so_progress = progress, so_count = c,
                     so_dispatched = slices\<rparr>)"
    by (rule scan_general_cases)
  from o assms(4) obtain c mc prs where
    ex: "ex = Collected c mc"
    and cr: "collectResults (length slices) (interleave (sc_resultOrder sch) (map w_handed ws))
                 (replicate (length slices) []) = Inr prs"
    and out: "out = \<lparr>so_merger = Some (NewMerger (rq_pattern request) prs
                                        (m_sort m \<and> sortable (rq_pattern request)) (m_tac m)
                                        (rq_revision request) (Index E item0)
                                        (lastIndex E (rq_chunks request ! (length (rq_chunks request) - 1))
                                           (Index E item0))),
                     so_cancelled = False, so_progress = progress, so_count = c,
                     so_dispatched = slices\<rparr>"
    by auto
  have ws: "ws = map (\<lambda>(i, cs). worker E m request [] i cs) (zip [0..<length slices] slices)"
    using spawn_Inr [OF sp] by simp
  have prs: "prs = map (\<lambda>cs. localSort E m request (concat (map (Match (rq_pattern request)) cs))) slices"
    using collect_handed [OF ws, of "sc_resultOrder sch"] cr by simp
  have n: "0 < length (rq_chunks request)" using assms(2) by simp
  from countLoop_steps [OF n cl] ex have c: "c = length (rq_chunks request)" by blast
  show ?thesis using i s out prs c by simp
qed

lemma scan_progress:
  assumes "scan E m request sch = Inr (m', out)"
  shows "m_eventBox m' = m_eventBox m @ map EvtSearchProgress (so_progress out)
    \<and> (\<exists>ks. so_progress out = map (\<lambda>k. of_nat k / of_nat (length (rq_chunks request))) ks
            \<and> sorted_wrt (<) ks \<and> (\<forall>k \<in> set ks. 0 < k \<and> k < length (rq_chunks request)))"
proof (cases "rq_chunks request = [] \<or> IsEmpty (rq_pattern request)")
  case True
  have "m' = m \<and> so_progress out = []"
  proof (cases "rq_chunks request = []")
    case True
    with assms scan_empty [of request E m sch] show ?thesis by auto
  next
    case False
    with \<open>rq_chunks request = [] \<or> IsEmpty (rq_pattern request)\<close> assms
      scan_pass [of request E m sch] show ?thesis by auto
  qed
  then show ?thesis by simp
next
  case False
  then have ne: "rq_chunks request \<noteq> []" and np: "\<not> IsEmpty (rq_pattern request)" by simp_all
  from assms ne np obtain item0 slices slab ws ex progress where
    "firstItem E (rq_chunks request ! 0) = Some item0"
    "sliceChunks m (rq_chunks request) = Inr slices"
    "spawn E m request 0 slices (m_slab m) = Inr (slab, ws)"
    and cl: "countLoop (length (rq_chunks request)) (interleave (sc_countOrder sch) (map w_sent ws))
       (sc_peeks sch) (sc_lates sch) 0 0 [] = (ex, progress)"
    and m': "m' = m\<lparr>m_slab := slab, m_eventBox := m_eventBox m @ map EvtSearchProgress progress\<rparr>"
    and o: "(ex = Reset \<and> out = \<lparr>so_merger = None, so_cancelled = True, so_progress = progress,
                            so_count = 0, so_dispatched = slices\<rparr>)
     \<or> (\<exists>c mc prs. ex = Collected c mc
           \<and> collectResults (length slices) (interleave (sc_resultOrder sch) (map w_handed ws))
                 (replicate (length slices) []) = Inr prs
           \<and> out = \<lparr>so_merger = Some (NewMerger (rq_pattern request) prs
                                        (m_sort m \<and> sortable (rq_pattern request)) (m_tac m)
                                        (rq_revision request) (Index E item0)
                                        (lastIndex E (rq_chunks request ! (length (rq_chunks request) - 1))
                                           (Index E item0))),
                     so_cancelled = False, so_progress = progress, so_count = c,
                     so_dispatched = slices\<rparr>)"
    by (rule scan_general_cases)
  have p: "so_progress out = progress" using o by auto
  have n: "0 < length (rq_chunks request)" using ne by simp
  from countLoop_steps [OF n cl] have
    "\<exists>ks. progress = map (\<lambda>k. of_nat k / of_nat (length (rq_chunks request))) ks
         \<and> sorted_wrt (<) ks \<and> (\<forall>k \<in> set ks. 0 < k \<and> k < length (rq_chunks request))"
    by simp
  with p m' show ?thesis by simp
qed

lemma scan_general_total:
  assumes "rq_chunks request \<noteq> []" "\<not> IsEmpty (rq_pattern request)"
    "firstItem E (rq_chunks request ! 0) \<noteq> None" "0 < m_partitions m" "m_partitions m \<le> length (m_slab m)"
  shows "\<exists>m' out. scan E m request sch = Inr (m', out)"
proof -
  let ?cs = "rq_chunks request"
  from assms(3) obtain item0 where i: "firstItem E (?cs ! 0) = Some item0"
    by auto
  from sliceChunks_eq [OF assms(4), of ?cs] obtain slices where
    s: "sliceChunks m ?cs = Inr slices" by blast
  have le: "length slices \<le> m_partitions m" and cc: "concat slices = ?cs"
    using length_slices_le [OF assms(4) s] by auto
  from spawn_total [of 0 slices "m_slab m" E m request] le assms(5) obtain slab ws where
    sp: "spawn E m request 0 slices (m_slab m) = Inr (slab, ws)" by auto
  have ws: "ws = map (\<lambda>(i, cs). worker E m request [] i cs) (zip [0..<length slices] slices)"
    using spawn_Inr [OF sp] by simp
  let ?msgs = "interleave (sc_countOrder sch) (map w_sent ws)"
  have len: "length ?msgs = length ?cs" using sent_total [OF ws] cc by simp
  obtain ex progress where
    cl: "countLoop (length ?cs) ?msgs (sc_peeks sch) (sc_lates sch) 0 0 [] = (ex, progress)"
    by (cases "countLoop (length ?cs) ?msgs (sc_peeks sch) (sc_lates sch) 0 0 []") auto
  have n: "0 < length ?cs" using assms(1) by simp
  have "fst (countLoop (length ?cs) ?msgs (sc_peeks sch) (sc_lates sch) 0 0 []) \<noteq> Starved"
    using n len by (intro countLoop_fed) simp_all
  with cl have ns: "ex \<noteq> Starved" by simp
  have cr: "collectResults (length slices) (interleave (sc_resultOrder sch) (map w_handed ws))
      (replicate (length slices) [])
    = Inr (map (\<lambda>cs. localSort E m request (concat (map (Match (rq_pattern request)) cs))) slices)"
    by (rule collect_handed [OF ws])
  show ?thesis
    using assms(1,2) i s sp cl ns cr
    by (cases ex) (simp_all add: scan_def Let_def)
qed

lemma spawn_Inl: "spawn E m request idx slices slab = Inl e \<Longrightarrow> e = IndexOutOfRange"
proof (induction slices arbitrary: idx slab)
  case Nil
  then show ?case by simp
next
  case (Cons cs slices)
  show ?case
  proof (cases "idx < length slab")
    case False
    with Cons.prems show ?thesis by simp
  next
    case True
    let ?slab1 = "if \<not> slab ! idx then slab[idx := True] else slab"
    from Cons.prems True have "spawn E m request (idx + 1) slices ?slab1 = Inl e"
      by (auto simp: Let_def split: sum.splits prod.splits)
    then show ?thesis by (rule Cons.IH)
  qed
qed

lemma sliceChunks_Inl: "sliceChunks m chunks = Inl e \<Longrightarrow> e = DivideByZero"
proof (cases "m_partitions m = 0")
  case True
  assume "sliceChunks m chunks = Inl e"
  with True show ?thesis by (simp add: sliceChunks_def)
next
  case False
  assume a: "sliceChunks m chunks = Inl e"
  from False have "0 < m_partitions m" by simp
  from sliceChunks_eq [OF this, of chunks] a show ?thesis by simp
qed

lemma scan_after_spawn:
  assumes "rq_chunks request \<noteq> []" "\<not> IsEmpty (rq_pattern request)"
    "firstItem E (rq_chunks request ! 0) \<noteq> None"
    "sliceChunks m (rq_chunks request) = Inr slices"
    "spawn E m request 0 slices (m_slab m) = Inr (slab, ws)"
  shows "\<exists>m' out. scan E m request sch = Inr (m', out)"
proof -
  let ?cs = "rq_chunks request"
  from assms(3) obtain item0 where i: "firstItem E (?cs ! 0) = Some item0"
    by auto
  have p: "0 < m_partitions m" using assms(4) by (auto simp: sliceChunks_def split: if_splits)
  have cc: "concat slices = ?cs" using length_slices_le [OF p assms(4)] by auto
  have ws: "ws = map (\<lambda>(i, cs). worker E m request [] i cs) (zip [0..<length slices] slices)"
    using spawn_Inr [OF assms(5)] by simp
  let ?msgs = "interleave (sc_countOrder sch) (map w_sent ws)"
  have len: "length ?msgs = length ?cs" using sent_total [OF ws] cc by simp
  obtain ex progress where
    cl: "countLoop (length ?cs) ?msgs (sc_peeks sch) (sc_lates sch) 0 0 [] = (ex, progress)"
    by (cases "countLoop (length ?cs) ?msgs (sc_peeks sch) (sc_lates sch) 0 0 []") auto
  have n: "0 < length ?cs" using assms(1) by simp
  have "fst (countLoop (length ?cs) ?msgs (sc_peeks sch) (sc_lates sch) 0 0 []) \<noteq> Starved"
    using n len by (intro countLoop_fed) simp_all
  with cl have ns: "ex \<noteq> Starved" by simp
  have cr: "collectResults (length slices) (interleave (sc_resultOrder sch) (map w_handed ws))
      (replicate (length slices) [])
    = Inr (map (\<lambda>cs. localSort E m request (concat (map (Match (rq_pattern request)) cs))) slices)"
    by (rule collect_handed [OF ws])
  show ?thesis
    using assms(1,2,4,5) i cl ns cr
    by (cases ex) (simp_all add: scan_def Let_def)
qed

text \<open>
  The supervisor never waits for a message that does not come: the workers send one
  count per chunk and one result per slice, and the slices cover the chunks.
\<close>

lemma scan_never_blocks: "scan E m request sch \<noteq> Inl Deadlock"
proof (cases "rq_chunks request = [] \<or> IsEmpty (rq_pattern request)
              \<or> firstItem E (rq_chunks request ! 0) = None")
  case True
  show ?thesis
  proof (cases "rq_chunks request = []")
    case True
    then show ?thesis by (simp add: scan_empty)
  next
    case ne: False
    show ?thesis
    proof (cases "IsEmpty (rq_pattern request)")
      case True
      with ne show ?thesis by (simp add: scan_pass)
    next
      case False
      with ne \<open>rq_chunks request = [] \<or> IsEmpty (rq_pattern request)
              \<or> firstItem E (rq_chunks request ! 0) = None\<close>
      show ?thesis by (simp add: scan_no_item)
    qed
  qed
next
  case False
  then have ne: "rq_chunks request \<noteq> []" and np: "\<not> IsEmpty (rq_pattern request)"
    and it: "firstItem E (rq_chunks request ! 0) \<noteq> None" by simp_all
  from it obtain item0 where i: "firstItem E (rq_chunks request ! 0) = Some item0"
    by auto
  show ?thesis
  proof (cases "sliceChunks m (rq_chunks request)")
    case (Inl e)
    with sliceChunks_Inl [OF Inl] ne np i show ?thesis by (simp add: scan_def Let_def)
  next
    case (Inr slices)
    show ?thesis
    proof (cases "spawn E m request 0 slices (m_slab m)")
      case (Inl e)
      with spawn_Inl [OF Inl] Inr ne np i show ?thesis by (simp add: scan_def Let_def)
    next
      case sp: (Inr r)
      then obtain slab ws where "spawn E m request 0 slices (m_slab m) = Inr (slab, ws)"
        by (cases r) auto
      from scan_after_spawn [OF ne np it Inr this, of sch] show ?thesis by auto
    qed
  qed
qed

lemma NewMatcher_partitions:
  assumes "0 < numPartitionsMultiplier" "0 < maxPartitions" "0 < numCPU"
  shows "0 < m_partitions (NewMatcher numPartitionsMultiplier maxPartitions numCPU s t r)"
    and "length (m_slab (NewMatcher numPartitionsMultiplier maxPartitions numCPU s t r))
         = m_partitions (NewMatcher numPartitionsMultiplier maxPartitions numCPU s t r)"
  using assms by (simp_all add: NewMatcher_def Let_def)

lemma scan_keeps_partitions:
  assumes "scan E m request sch = Inr (m', out)"
  shows "m_partitions m' = m_partitions m" and "length (m_slab m') = length (m_slab m)"
proof -
  have "m_partitions m' = m_partitions m \<and> length (m_slab m') = length (m_slab m)"
  proof (cases "rq_chunks request = [] \<or> IsEmpty (rq_pattern request)")
    case True
    then have "m' = m"
      using assms scan_empty [of request E m sch] scan_pass [of request E m sch] by auto
    then show ?thesis by simp
  next
    case False
    then have ne: "rq_chunks request \<noteq> []" and np: "\<not> IsEmpty (rq_pattern request)" by simp_all
    from assms ne np obtain item0 slices slab ws ex progress where
      "firstItem E (rq_chunks request ! 0) = Some item0"
      "sliceChunks m (rq_chunks request) = Inr slices"
      and sp: "spawn E m request 0 slices (m_slab m) = Inr (slab, ws)"
      and "countLoop (length (rq_chunks request)) (interleave (sc_countOrder sch) (map w_sent ws))
         (sc_peeks sch) (sc_lates sch) 0 0 [] = (ex, progress)"
      and m': "m' = m\<lparr>m_slab := slab, m_eventBox := m_eventBox m @ map EvtSearchProgress progress\<rparr>"
      by (rule scan_general_cases)
    from spawn_Inr [OF sp] m' show ?thesis by simp
  qed
  then show "m_partitions m' = m_partitions m" and "length (m_slab m') = length (m_slab m)"
    by simp_all
qed

text \<open>The panics of a scan: the read of the first item, the scratch slot, the division.\<close>

lemma scan_Inl:
  assumes "scan E m request sch = Inl e"
  shows "e = IndexOutOfRange \<or> e = DivideByZero"
proof (cases "rq_chunks request = []")
  case True
  with assms show ?thesis by (simp add: scan_empty)
next
  case ne: False
  show ?thesis
  proof (cases "IsEmpty (rq_pattern request)")
    case True
    with ne assms show ?thesis by (simp add: scan_pass)
  next
    case np: False
    show ?thesis
    proof (cases "firstItem E (rq_chunks request ! 0)")
      case None
      with ne np assms show ?thesis by (simp add: scan_no_item)
    next
      case (Some item0)
      then have it: "firstItem E (rq_chunks request ! 0) \<noteq> None" by simp
      show ?thesis
      proof (cases "sliceChunks m (rq_chunks request)")
        case (Inl e')
        with sliceChunks_Inl [OF Inl] ne np Some assms show ?thesis
          by (simp add: scan_def Let_def)
      next
        case (Inr slices)
        show ?thesis
        proof (cases "spawn E m request 0 slices (m_slab m)")
          case (Inl e')
          with spawn_Inl [OF Inl] Inr ne np Some assms show ?thesis
            by (simp add: scan_def Let_def)
        next
          case sp: (Inr r)
          then obtain slab ws where "spawn E m request 0 slices (m_slab m) = Inr (slab, ws)"
            by (cases r) auto
          from scan_after_spawn [OF ne np it Inr this, of sch] assms show ?thesis by auto
        qed
      qed
    qed
  qed
qed

text \<open>
  For a request with a non-empty pattern and at least one chunk, the scan reads the first
  item of the first chunk before it partitions: when the read is out of range the scan
  panics, whatever the partition count is; when it is in range and the matcher is as
  \<^verbatim>\<open>NewMatcher\<close> builds it, the scan returns, and the merger of a scan that is not
  cancelled carries the index of that item as its least index.
\<close>

lemma scan_first_read:
  assumes "\<not> IsEmpty (rq_pattern request)" and "rq_chunks request \<noteq> []"
  shows "firstItem E (hd (rq_chunks request)) = None \<Longrightarrow> scan E m request sch = Inl IndexOutOfRange"
    and "firstItem E (hd (rq_chunks request)) = Some item0 \<Longrightarrow> 0 < m_partitions m \<Longrightarrow>
         m_partitions m \<le> length (m_slab m) \<Longrightarrow>
         \<exists>m' out. scan E m request sch = Inr (m', out)
            \<and> (so_cancelled out
               \<or> (\<exists>mg p partials srt tac rv hi.
                     so_merger out = Some mg
                   \<and> mg_body mg = BuildBody p partials srt tac rv (Index E item0) hi))"
proof -
  have h: "rq_chunks request ! 0 = hd (rq_chunks request)"
    using assms(2) by (simp add: hd_conv_nth)
  show "firstItem E (hd (rq_chunks request)) = None \<Longrightarrow> scan E m request sch = Inl IndexOutOfRange"
    using scan_no_item [OF assms(2,1), of E m sch] h by simp
  show "\<exists>m' out. scan E m request sch = Inr (m', out)
            \<and> (so_cancelled out
               \<or> (\<exists>mg p partials srt tac rv hi.
                     so_merger out = Some mg
                   \<and> mg_body mg = BuildBody p partials srt tac rv (Index E item0) hi))"
    if f: "firstItem E (hd (rq_chunks request)) = Some item0" and p: "0 < m_partitions m"
      and sl: "m_partitions m \<le> length (m_slab m)"
  proof -
    from scan_general_total [OF assms(2,1) _ p sl, of E sch] f h
    obtain m' out where s: "scan E m request sch = Inr (m', out)" by auto
    show ?thesis
    proof (cases "so_cancelled out")
      case True
      with s show ?thesis by blast
    next
      case False
      from scan_collected [OF s assms(2,1) False] h f
      show ?thesis using s by (auto simp: NewMerger_def)
    qed
  qed
qed

section \<open>The iteration of the request loop, stage by stage\<close>

text \<open>
  A scan changes the scratch slots and the output mailbox of the matcher and nothing
  else, and it is cancelled exactly when it returns no merger.
\<close>

lemma scan_frame:
  assumes "scan E m request sch = Inr (m', out)"
  shows "\<exists>slab. m' = m\<lparr>m_slab := slab,
                       m_eventBox := m_eventBox m @ map EvtSearchProgress (so_progress out)\<rparr>"
    and "so_cancelled out \<longleftrightarrow> so_merger out = None"
proof -
  have "(\<exists>slab. m' = m\<lparr>m_slab := slab,
                       m_eventBox := m_eventBox m @ map EvtSearchProgress (so_progress out)\<rparr>)
     \<and> (so_cancelled out \<longleftrightarrow> so_merger out = None)"
  proof (cases "rq_chunks request = []")
    case True
    from assms scan_empty [OF True, of E m sch] have "m' = m" "so_progress out = []"
      "\<not> so_cancelled out" "so_merger out \<noteq> None" by auto
    moreover have "m = m\<lparr>m_slab := m_slab m, m_eventBox := m_eventBox m @ map EvtSearchProgress []\<rparr>"
      by simp
    ultimately show ?thesis by metis
  next
    case ne: False
    show ?thesis
    proof (cases "IsEmpty (rq_pattern request)")
      case True
      from assms scan_pass [OF ne True, of E m sch] have "m' = m" "so_progress out = []"
        "\<not> so_cancelled out" "so_merger out \<noteq> None" by auto
      moreover have "m = m\<lparr>m_slab := m_slab m, m_eventBox := m_eventBox m @ map EvtSearchProgress []\<rparr>"
        by simp
      ultimately show ?thesis by metis
    next
      case False
      from assms ne False obtain item0 slices slab ws ex progress where
        "firstItem E (rq_chunks request ! 0) = Some item0"
        "sliceChunks m (rq_chunks request) = Inr slices"
        "spawn E m request 0 slices (m_slab m) = Inr (slab, ws)"
        "countLoop (length (rq_chunks request)) (interleave (sc_countOrder sch) (map w_sent ws))
           (sc_peeks sch) (sc_lates sch) 0 0 [] = (ex, progress)"
        and m': "m' = m\<lparr>m_slab := slab, m_eventBox := m_eventBox m @ map EvtSearchProgress progress\<rparr>"
        and o: "(ex = Reset \<and> out = \<lparr>so_merger = None, so_cancelled = True, so_progress = progress,
                            so_count = 0, so_dispatched = slices\<rparr>)
          \<or> (\<exists>c mc prs. ex = Collected c mc
           \<and> collectResults (length slices) (interleave (sc_resultOrder sch) (map w_handed ws))
                 (replicate (length slices) []) = Inr prs
           \<and> out = \<lparr>so_merger = Some (NewMerger (rq_pattern request) prs
                                        (m_sort m \<and> sortable (rq_pattern request)) (m_tac m)
                                        (rq_revision request) (Index E item0)
                                        (lastIndex E (rq_chunks request ! (length (rq_chunks request) - 1))
                                           (Index E item0))),
                     so_cancelled = False, so_progress = progress, so_count = c,
                     so_dispatched = slices\<rparr>)"
        by (rule scan_general_cases)
      from o have "so_progress out = progress" "so_cancelled out \<longleftrightarrow> so_merger out = None"
        by auto
      with m' show ?thesis by blast
    qed
  qed
  then show "\<exists>slab. m' = m\<lparr>m_slab := slab,
                       m_eventBox := m_eventBox m @ map EvtSearchProgress (so_progress out)\<rparr>"
    and "so_cancelled out \<longleftrightarrow> so_merger out = None" by blast+
qed

lemma filter_isFin_progress [simp]: "filter isFin (map EvtSearchProgress qs) = []"
  by (induction qs) simp_all

lemma cycle_stages:
  assumes "cycle E sch st request = Inr (st', t)"
  obtains m1 cc merger0 pc m2 m3 merger cancelled scanned heap1 next1 where
    "invalidate E (ls_m st) request = (m1, cc)"
    "lookupCache (ls_heap st) m1 cc (ls_prevCount st) (CountItems E (rq_chunks request))
       (AsString (rq_pattern request)) request = (merger0, pc, m2)"
    "scanIfNeeded E sch (ls_heap st) (ls_next st) m2 request merger0
       = Inr (m3, merger, cancelled, scanned, heap1, next1)"
    "publish E request (AsString (rq_pattern request)) cc pc m3 merger cancelled scanned heap1 next1
       = Inr (st', t)"
  using assms by (auto simp: cycle_def Let_def split: prod.splits sum.splits)

lemma invalidate_eq:
  "invalidate E m request =
     (if rq_sort request \<noteq> m_sort m \<or> rq_revision request \<noteq> m_revision m then
        (m\<lparr>m_sort := rq_sort request, m_revision := rq_revision request,
           m_mergerCache := Map.empty,
           m_cache := (if compatible E (rq_revision request) (rq_revision request)
                       then m_cache m else m_cache m + 1)\<rparr>, True)
      else (m, False))"
  by (simp add: invalidate_def Let_def)

lemma lookupCache_eq:
  "lookupCache heap m cc prevCount count pat request =
     (if \<not> cc \<and> count = prevCount
         \<and> (\<exists>a. m_mergerCache m pat = Some a \<and> mg_final (heap a) = rq_final request)
      then m_mergerCache m pat else None,
      if \<not> cc \<and> count \<noteq> prevCount then count else prevCount,
      if \<not> cc \<and> count \<noteq> prevCount then m\<lparr>m_mergerCache := Map.empty\<rparr> else m)"
  by (auto simp: lookupCache_def split: option.splits)

lemma scanIfNeeded_hit:
  "scanIfNeeded E sch heap next m request (Some a) = Inr (m, Some a, False, False, heap, next)"
  by (simp add: scanIfNeeded_def)

lemma scanIfNeeded_miss:
  assumes "scanIfNeeded E sch heap next m request None = Inr (m3, merger, cancelled, scanned, heap1, next1)"
  shows "scanned"
    and "\<exists>slab qs. m3 = m\<lparr>m_slab := slab, m_eventBox := m_eventBox m @ map EvtSearchProgress qs\<rparr>"
    and "cancelled \<Longrightarrow> merger = None \<and> heap1 = heap \<and> next1 = next"
    and "\<not> cancelled \<Longrightarrow> \<exists>mg. merger = Some next \<and> heap1 = heap(next := mg) \<and> next1 = next + 1"
proof -
  from assms obtain m' out where s: "scan E m request sch = Inr (m', out)"
    by (auto simp: scanIfNeeded_def split: sum.splits)
  note f = scan_frame [OF s]
  from assms s f(2) show "scanned"
    by (auto simp: scanIfNeeded_def split: option.splits)
  from assms s f(1) show "\<exists>slab qs. m3 = m\<lparr>m_slab := slab, m_eventBox := m_eventBox m @ map EvtSearchProgress qs\<rparr>"
    by (auto simp: scanIfNeeded_def split: option.splits)
  from assms s f(2) show "cancelled \<Longrightarrow> merger = None \<and> heap1 = heap \<and> next1 = next"
    by (auto simp: scanIfNeeded_def split: option.splits)
  from assms s f(2) show "\<not> cancelled \<Longrightarrow> \<exists>mg. merger = Some next \<and> heap1 = heap(next := mg) \<and> next1 = next + 1"
    by (auto simp: scanIfNeeded_def split: option.splits)
qed

lemma publish_Inr:
  assumes "publish E request pat cc pc m merger cancelled scanned heap next = Inr (st', t)"
  shows "ct_cacheCleared t = cc" and "ct_scanned t = scanned" and "ct_cancelled t = cancelled"
    and "ls_prevCount st' = pc" and "m_sort (ls_m st') = m_sort m"
    and "m_revision (ls_m st') = m_revision m" and "m_cache (ls_m st') = m_cache m"
    and "ct_stored t \<longrightarrow>
           (\<exists>a. m_mergerCache (ls_m st') pat = Some a \<and> mg_final (ls_heap st' a) = rq_final request)"
  using assms by (auto simp: publish_def Let_def split: if_splits option.splits)

lemma cycle_post:
  assumes "cycle E sch st request = Inr (st', t)"
  shows "ct_cacheCleared t
           = (rq_sort request \<noteq> m_sort (ls_m st) \<or> rq_revision request \<noteq> m_revision (ls_m st))"
    and "m_sort (ls_m st') = rq_sort request" and "m_revision (ls_m st') = rq_revision request"
    and "ls_prevCount st' =
           (if \<not> ct_cacheCleared t \<and> CountItems E (rq_chunks request) \<noteq> ls_prevCount st
            then CountItems E (rq_chunks request) else ls_prevCount st)"
    and "m_cache (ls_m st') =
           (if ct_cacheCleared t \<and> \<not> compatible E (rq_revision request) (rq_revision request)
            then m_cache (ls_m st) + 1 else m_cache (ls_m st))"
    and "ct_stored t \<longrightarrow>
           (\<exists>a. m_mergerCache (ls_m st') (AsString (rq_pattern request)) = Some a
               \<and> mg_final (ls_heap st' a) = rq_final request)"
    and "\<not> ct_scanned t \<longleftrightarrow>
           \<not> ct_cacheCleared t \<and> CountItems E (rq_chunks request) = ls_prevCount st
           \<and> (\<exists>a. m_mergerCache (ls_m st) (AsString (rq_pattern request)) = Some a
                  \<and> mg_final (ls_heap st a) = rq_final request)"
proof -
  let ?pat = "AsString (rq_pattern request)" and ?count = "CountItems E (rq_chunks request)"
  let ?cc = "rq_sort request \<noteq> m_sort (ls_m st) \<or> rq_revision request \<noteq> m_revision (ls_m st)"
  from assms obtain m1 cc merger0 pc m2 m3 merger cancelled scanned heap1 next1 where
    inv: "invalidate E (ls_m st) request = (m1, cc)"
    and lk: "lookupCache (ls_heap st) m1 cc (ls_prevCount st) ?count ?pat request = (merger0, pc, m2)"
    and sc: "scanIfNeeded E sch (ls_heap st) (ls_next st) m2 request merger0
       = Inr (m3, merger, cancelled, scanned, heap1, next1)"
    and pb: "publish E request ?pat cc pc m3 merger cancelled scanned heap1 next1 = Inr (st', t)"
    by (rule cycle_stages)
  note P = publish_Inr [OF pb]
  have cc: "cc = ?cc" using inv by (auto simp: invalidate_eq split: if_splits)
  have m1: "m_sort m1 = rq_sort request" "m_revision m1 = rq_revision request"
    "m_cache m1 = (if cc \<and> \<not> compatible E (rq_revision request) (rq_revision request)
                   then m_cache (ls_m st) + 1 else m_cache (ls_m st))"
    "\<not> cc \<longrightarrow> m_mergerCache m1 = m_mergerCache (ls_m st)"
    using inv by (auto simp: invalidate_eq split: if_splits)
  have m2: "m_sort m2 = m_sort m1" "m_revision m2 = m_revision m1" "m_cache m2 = m_cache m1"
    and pc: "pc = (if \<not> cc \<and> ?count \<noteq> ls_prevCount st then ?count else ls_prevCount st)"
    and mg0: "merger0 \<noteq> None \<longleftrightarrow>
       \<not> cc \<and> ?count = ls_prevCount st
       \<and> (\<exists>a. m_mergerCache m1 ?pat = Some a \<and> mg_final (ls_heap st a) = rq_final request)"
    using lk by (auto simp: lookupCache_eq split: if_splits)
  have m3: "m_sort m3 = m_sort m2 \<and> m_revision m3 = m_revision m2 \<and> m_cache m3 = m_cache m2
            \<and> (scanned \<longleftrightarrow> merger0 = None)"
  proof (cases merger0)
    case (Some a)
    with sc have "m3 = m2" "\<not> scanned" by (simp_all add: scanIfNeeded_hit)
    with Some show ?thesis by simp
  next
    case None
    from scanIfNeeded_miss(1,2) [OF sc [unfolded None]] None show ?thesis by auto
  qed
  show "ct_cacheCleared t = ?cc" using P(1) cc by simp
  show "m_sort (ls_m st') = rq_sort request" using P(5) m3 m2 m1 by simp
  show "m_revision (ls_m st') = rq_revision request" using P(6) m3 m2 m1 by simp
  show "ls_prevCount st' =
           (if \<not> ct_cacheCleared t \<and> ?count \<noteq> ls_prevCount st then ?count else ls_prevCount st)"
    using P(1,4) pc by simp
  show "m_cache (ls_m st') =
           (if ct_cacheCleared t \<and> \<not> compatible E (rq_revision request) (rq_revision request)
            then m_cache (ls_m st) + 1 else m_cache (ls_m st))"
    using P(1,7) m3 m2 m1(3) by simp
  show "ct_stored t \<longrightarrow>
           (\<exists>a. m_mergerCache (ls_m st') ?pat = Some a \<and> mg_final (ls_heap st' a) = rq_final request)"
    by (rule P(8))
  show "\<not> ct_scanned t \<longleftrightarrow>
           \<not> ct_cacheCleared t \<and> ?count = ls_prevCount st
           \<and> (\<exists>a. m_mergerCache (ls_m st) ?pat = Some a \<and> mg_final (ls_heap st a) = rq_final request)"
    using P(1,2) m3 mg0 m1(4) by auto
qed

lemma cycle_keeps_partitions:
  assumes "cycle E sch st request = Inr (st', t)"
  shows "m_partitions (ls_m st') = m_partitions (ls_m st)"
    and "length (m_slab (ls_m st')) = length (m_slab (ls_m st))"
proof -
  let ?pat = "AsString (rq_pattern request)" and ?count = "CountItems E (rq_chunks request)"
  from assms obtain m1 cc merger0 pc m2 m3 merger cancelled scanned heap1 next1 where
    inv: "invalidate E (ls_m st) request = (m1, cc)"
    and lk: "lookupCache (ls_heap st) m1 cc (ls_prevCount st) ?count ?pat request = (merger0, pc, m2)"
    and sc: "scanIfNeeded E sch (ls_heap st) (ls_next st) m2 request merger0
       = Inr (m3, merger, cancelled, scanned, heap1, next1)"
    and pb: "publish E request ?pat cc pc m3 merger cancelled scanned heap1 next1 = Inr (st', t)"
    by (rule cycle_stages)
  have 1: "m_partitions m1 = m_partitions (ls_m st)" "m_slab m1 = m_slab (ls_m st)"
    using inv by (auto simp: invalidate_eq split: if_splits)
  have 2: "m_partitions m2 = m_partitions m1" "m_slab m2 = m_slab m1"
    using lk by (auto simp: lookupCache_eq split: if_splits)
  have 3: "m_partitions m3 = m_partitions m2 \<and> length (m_slab m3) = length (m_slab m2)"
  proof (cases merger0)
    case (Some a)
    with sc show ?thesis by (simp add: scanIfNeeded_hit)
  next
    case None
    with sc obtain out where "scan E m2 request sch = Inr (m3, out)"
      by (auto simp: scanIfNeeded_def split: sum.splits option.splits)
    from scan_keeps_partitions [OF this] show ?thesis by simp
  qed
  have 4: "m_partitions (ls_m st') = m_partitions m3" "m_slab (ls_m st') = m_slab m3"
    using pb by (auto simp: publish_def Let_def split: if_splits option.splits)
  from 1 2 3 4 show "m_partitions (ls_m st') = m_partitions (ls_m st)"
    and "length (m_slab (ls_m st')) = length (m_slab (ls_m st))" by simp_all
qed

text \<open>
  An iteration never calls a method of a \<^verbatim>\<open>nil\<close> merger and never waits for ever: it
  fails only with a panic of its scan.
\<close>

lemma cycle_Inl:
  assumes "cycle E sch st request = Inl e"
  shows "e = IndexOutOfRange \<or> e = DivideByZero"
proof -
  let ?pat = "AsString (rq_pattern request)" and ?count = "CountItems E (rq_chunks request)"
  obtain m1 cc where inv: "invalidate E (ls_m st) request = (m1, cc)"
    by (cases "invalidate E (ls_m st) request") auto
  obtain merger0 pc m2 where
    lk: "lookupCache (ls_heap st) m1 cc (ls_prevCount st) ?count ?pat request = (merger0, pc, m2)"
    by (cases "lookupCache (ls_heap st) m1 cc (ls_prevCount st) ?count ?pat request") auto
  show ?thesis
  proof (cases "scanIfNeeded E sch (ls_heap st) (ls_next st) m2 request merger0")
    case (Inl e')
    with assms inv lk have e: "e' = e" by (simp add: cycle_def Let_def)
    from Inl have "scan E m2 request sch = Inl e'"
      by (auto simp: scanIfNeeded_def split: option.splits sum.splits prod.splits)
    from scan_Inl [OF this] e show ?thesis by simp
  next
    case (Inr r)
    then obtain m3 merger cancelled scanned heap1 next1 where
      sc: "scanIfNeeded E sch (ls_heap st) (ls_next st) m2 request merger0
             = Inr (m3, merger, cancelled, scanned, heap1, next1)"
      by (cases r) auto
    with assms inv lk have
      pb: "publish E request ?pat cc pc m3 merger cancelled scanned heap1 next1 = Inl e"
      by (simp add: cycle_def Let_def)
    have "cancelled \<or> merger \<noteq> None"
    proof (cases merger0)
      case (Some a)
      with sc have "merger = Some a" by (simp add: scanIfNeeded_hit)
      then show ?thesis by simp
    next
      case None
      from scanIfNeeded_miss(4) [OF sc [unfolded None]] show ?thesis by auto
    qed
    with pb show ?thesis by (auto simp: publish_def Let_def split: if_splits option.splits)
  qed
qed

text \<open>The scan of an iteration runs with \<^verbatim>\<open>m.sort\<close> equal to the sort flag of the request.\<close>

lemma cycle_scans_with_request_sort:
  assumes "invalidate E m request = (m1, cc)"
    and "lookupCache heap m1 cc prevCount count pat request = (merger0, pc, m2)"
  shows "m_sort m2 = rq_sort request"
  using assms by (auto simp: invalidate_eq lookupCache_eq split: if_splits)

section \<open>The examples, evaluated\<close>

lemma rep2: "replicate 2 x = [x, x]" "replicate (Suc (Suc 0)) x = [x, x]"
  by (simp_all add: numeral_2_eq_2)

lemmas ex_defs = ex_ext_def ex_matcher_def ex_request_def ex_pattern_def ex_chunks_def
  ex_sched_def ex_sched_alt_def ex_sched_reset_def NewMatcher_def NewMerger_def

lemmas scan_eval = scan_def sliceChunks_def sliceLoop.simps slice_def worker_def localSort_def
  Let_def rep2

lemma ex_scan:
  "scan ex_ext ex_matcher ex_request ex_sched =
     Inr (ex_matcher\<lparr>m_slab := [True, True],
                     m_eventBox := [EvtSearchProgress (1 / 3), EvtSearchProgress (2 / 3)]\<rparr>,
          \<lparr>so_merger = Some (NewMerger ex_pattern [[2, 4], [6, 8, 10]] True False (1, 0) 4 8),
           so_cancelled = False, so_progress = [1 / 3, 2 / 3], so_count = 3,
           so_dispatched = [[\<lparr>items = [4, 1, 2]\<rparr>], [\<lparr>items = [3, 8, 6]\<rparr>, \<lparr>items = [10, 7]\<rparr>]]\<rparr>)"
  by (simp add: ex_defs scan_eval)

lemma ex_scan_alt:
  "scan ex_ext ex_matcher ex_request ex_sched_alt =
     Inr (ex_matcher\<lparr>m_slab := [True, True], m_eventBox := []\<rparr>,
          \<lparr>so_merger = Some (NewMerger ex_pattern [[2, 4], [6, 8, 10]] True False (1, 0) 4 8),
           so_cancelled = False, so_progress = [], so_count = 3,
           so_dispatched = [[\<lparr>items = [4, 1, 2]\<rparr>], [\<lparr>items = [3, 8, 6]\<rparr>, \<lparr>items = [10, 7]\<rparr>]]\<rparr>)"
  by (simp add: ex_defs scan_eval)

lemma ex_scan_reset:
  "scan ex_ext ex_matcher ex_request ex_sched_reset =
     Inr (ex_matcher\<lparr>m_slab := [True, True], m_eventBox := [EvtSearchProgress (1 / 3)]\<rparr>,
          \<lparr>so_merger = None, so_cancelled = True, so_progress = [1 / 3], so_count = 0,
           so_dispatched = [[\<lparr>items = [4, 1, 2]\<rparr>], [\<lparr>items = [3, 8, 6]\<rparr>, \<lparr>items = [10, 7]\<rparr>]]\<rparr>)"
  by (simp add: ex_defs scan_eval)

lemmas cycle_eval = cycle_def invalidate_def lookupCache_def scanIfNeeded_def publish_def
  ex_state_def ex_state_unsorted_def ex_state_old_def ex_state_done_def ex_merger_def
  EmptyMerger_def

lemma ex_cycle_old:
  "cycle ex_ext ex_sched ex_state_old ex_request =
     Inr (ex_state_done,
          \<lparr>ct_cacheCleared = True, ct_scanned = True, ct_cancelled = False, ct_stored = True,
           ct_merger = Some 0\<rparr>)"
  by (simp add: cycle_eval ex_defs scan_eval)

lemma ex_cycle_unsorted:
  "cycle ex_ext ex_sched ex_state_unsorted ex_request =
     Inr (ex_state_done,
          \<lparr>ct_cacheCleared = True, ct_scanned = True, ct_cancelled = False, ct_stored = True,
           ct_merger = Some 0\<rparr>)"
  by (simp add: cycle_eval ex_defs scan_eval)

lemma ex_cycle_again:
  "cycle ex_ext ex_sched_alt ex_state_done ex_request =
     Inr (ex_state_done
            \<lparr>ls_m := (ls_m ex_state_done)
               \<lparr>m_eventBox := m_eventBox (ls_m ex_state_done) @ [EvtSearchFin 1],
                m_mergerCache := [''a'' \<mapsto> 1]\<rparr>,
             ls_prevCount := 8,
             ls_heap := (ls_heap ex_state_done)(1 := ex_merger\<lparr>mg_final := True\<rparr>),
             ls_next := 2\<rparr>,
          \<lparr>ct_cacheCleared = False, ct_scanned = True, ct_cancelled = False, ct_stored = True,
           ct_merger = Some 1\<rparr>)"
  by (simp add: cycle_eval ex_defs scan_eval)

lemma ex_cycle_first:
  "cycle ex_ext ex_sched ex_state ex_request =
     Inr (ex_state_done\<lparr>ls_prevCount := 8\<rparr>,
          \<lparr>ct_cacheCleared = False, ct_scanned = True, ct_cancelled = False, ct_stored = True,
           ct_merger = Some 0\<rparr>)"
  by (simp add: cycle_eval ex_defs scan_eval)

lemma ex_cycle_hit:
  "cycle ex_ext ex_sched (ex_state_done\<lparr>ls_prevCount := 8\<rparr>) ex_request =
     Inr (ex_state_done
            \<lparr>ls_m := (ls_m ex_state_done)
               \<lparr>m_eventBox := m_eventBox (ls_m ex_state_done) @ [EvtSearchFin 0]\<rparr>,
             ls_prevCount := 8\<rparr>,
          \<lparr>ct_cacheCleared = False, ct_scanned = False, ct_cancelled = False, ct_stored = True,
           ct_merger = Some 0\<rparr>)"
  by (simp add: cycle_eval ex_defs scan_eval)

lemma ex_cycle_reset:
  "cycle ex_ext ex_sched_reset ex_state ex_request =
     Inr (ex_state
            \<lparr>ls_m := ex_matcher\<lparr>m_slab := [True, True], m_eventBox := [EvtSearchProgress (1 / 3)]\<rparr>,
             ls_prevCount := 8\<rparr>,
          \<lparr>ct_cacheCleared = False, ct_scanned = True, ct_cancelled = True, ct_stored = False,
           ct_merger = None\<rparr>)"
  by (simp add: cycle_eval ex_defs scan_eval)

section \<open>The claims about the worker and the scan\<close>

text \<open>
  Claim C7, as amended. A worker that reads the cancellation flag unset after each chunk
  of its slice sends one count per chunk, sorts the concatenation of the matches of its
  chunks (when \<^verbatim>\<open>m.sort\<close>, which the request loop has set to the sort flag of the
  request, is set and the pattern is sortable; with the tac comparator in tac mode)
  and hands the result under its partition index. A worker that reads the flag set
  returns at once: it has sent the counts of the chunks before, it does not sort, and
  it hands nothing.
\<close>

theorem worker_hands_unless_stopped:
  "worker E m request obs idx chunks =
     (if True \<in> set (take (length chunks) obs) then
        \<lparr>w_sent = map (\<lambda>c. length (Match (rq_pattern request) c))
                    (take (length (takeWhile Not obs)) chunks),
         w_handed = []\<rparr>
      else
        \<lparr>w_sent = map (\<lambda>c. length (Match (rq_pattern request) c)) chunks,
         w_handed =
           [\<lparr>pr_index = idx,
             pr_matches =
               (if m_sort m \<and> sortable (rq_pattern request) then
                  (if m_tac m
                   then ByRelevanceTac E (concat (map (Match (rq_pattern request)) chunks))
                   else ByRelevance E (concat (map (Match (rq_pattern request)) chunks)))
                else concat (map (Match (rq_pattern request)) chunks))\<rparr>]\<rparr>)"
  using worker_unobserved [of chunks obs E m request idx] worker_stopped [of chunks obs E m request idx]
  by (simp add: localSort_def)

text \<open>
  Claim C7, an instance of the amended statement: the worker of the example on all three
  chunks, left alone, and stopped at its first read of the flag.
\<close>

theorem worker_hands_unless_stopped_witness:
  "worker ex_ext ex_matcher ex_request [] 0 ex_chunks =
     \<lparr>w_sent = [2, 2, 1], w_handed = [\<lparr>pr_index = 0, pr_matches = [2, 4, 6, 8, 10]\<rparr>]\<rparr>
   \<and> worker ex_ext ex_matcher ex_request [True] 0 ex_chunks = \<lparr>w_sent = [], w_handed = []\<rparr>"
  using worker_hands_unless_stopped [of ex_ext ex_matcher ex_request "[]" 0 ex_chunks]
    worker_hands_unless_stopped [of ex_ext ex_matcher ex_request "[True]" 0 ex_chunks]
  by (simp add: ex_defs)

text \<open>
  Claim C7 as stated fails: the worker of the example reads the flag set after its second
  chunk; it has sent one count, and it hands no result set to the supervisor.
\<close>

theorem worker_stopped_hands_nothing:
  "worker ex_ext ex_matcher ex_request [False, True] 0 ex_chunks = \<lparr>w_sent = [2], w_handed = []\<rparr>"
  by (simp add: ex_defs scan_eval)

text \<open>
  Claim C5. For a request with zero chunks the scan returns at once, whatever the
  schedule: the merger is the empty merger of the revision of the request (it is tagged
  with that revision and holds no item), the scan is not cancelled, no worker was
  started, no progress was reported and the matcher is unchanged.
\<close>

theorem scan_zero_chunks:
  assumes "rq_chunks request = []"
  shows "\<exists>mg. scan E m request sch =
                Inr (m, \<lparr>so_merger = Some mg, so_cancelled = False, so_progress = [],
                         so_count = 0, so_dispatched = []\<rparr>)
              \<and> mg = EmptyMerger (rq_revision request)
              \<and> bodyRevision (mg_body mg) = rq_revision request
              \<and> unscoredItems (mg_body mg) = Some []"
  using assms scan_empty [of request E m sch] by (simp add: EmptyMerger_def)

text \<open>
  Claim C5, an instance: the request of the example without its chunks.
\<close>

theorem scan_zero_chunks_witness:
  "rq_chunks (ex_request\<lparr>rq_chunks := []\<rparr>) = []
   \<and> scan ex_ext ex_matcher (ex_request\<lparr>rq_chunks := []\<rparr>) ex_sched =
       Inr (ex_matcher, \<lparr>so_merger = Some (EmptyMerger (1, 0)), so_cancelled = False,
                         so_progress = [], so_count = 0, so_dispatched = []\<rparr>)"
  using scan_zero_chunks [of "ex_request\<lparr>rq_chunks := []\<rparr>" ex_ext ex_matcher ex_sched]
  by (simp add: ex_request_def)

text \<open>
  Claim C4. For a request with the empty pattern and at least one chunk the scan returns
  at once, whatever the schedule: no worker was started, the result is the same
  whatever the scoring operation of the pattern is, and the merger is the pass-through
  merger of the chunks, tagged with the revision of the request, that holds every item
  of the chunks, in the order of the chunks, or in the reverse of it in tac mode.
\<close>

theorem scan_empty_pattern:
  assumes "IsEmpty (rq_pattern request)" and "rq_chunks request \<noteq> []"
  shows "\<exists>mg. scan E m request sch =
                Inr (m, \<lparr>so_merger = Some mg, so_cancelled = False, so_progress = [],
                         so_count = 0, so_dispatched = []\<rparr>)
              \<and> scan E m (request\<lparr>rq_pattern := (rq_pattern request)\<lparr>Match := score\<rparr>\<rparr>) sch
                  = scan E m request sch
              \<and> mg = PassMerger (rq_chunks request) (m_tac m) (rq_revision request)
              \<and> bodyRevision (mg_body mg) = rq_revision request
              \<and> unscoredItems (mg_body mg)
                  = Some (if m_tac m then rev (concat (map items (rq_chunks request)))
                          else concat (map items (rq_chunks request)))"
  using assms scan_pass [of request E m sch]
    scan_pass [of "request\<lparr>rq_pattern := (rq_pattern request)\<lparr>Match := score\<rparr>\<rparr>" E m sch]
  by (simp add: PassMerger_def)

text \<open>
  Claim C4, an instance: the chunks of the example under the empty pattern, in tac mode.
\<close>

theorem scan_empty_pattern_witness:
  "IsEmpty (rq_pattern (ex_request\<lparr>rq_pattern := ex_empty_pattern\<rparr>))
   \<and> rq_chunks (ex_request\<lparr>rq_pattern := ex_empty_pattern\<rparr>) \<noteq> []
   \<and> (\<exists>mg. scan ex_ext (ex_matcher\<lparr>m_tac := True\<rparr>) (ex_request\<lparr>rq_pattern := ex_empty_pattern\<rparr>)
              ex_sched =
            Inr (ex_matcher\<lparr>m_tac := True\<rparr>,
                 \<lparr>so_merger = Some mg, so_cancelled = False, so_progress = [], so_count = 0,
                  so_dispatched = []\<rparr>)
          \<and> mg = PassMerger ex_chunks True (1, 0)
          \<and> unscoredItems (mg_body mg) = Some [7, 10, 6, 8, 3, 2, 1, 4])"
  using scan_empty_pattern [of "ex_request\<lparr>rq_pattern := ex_empty_pattern\<rparr>" ex_ext
      "ex_matcher\<lparr>m_tac := True\<rparr>" ex_sched "\<lambda>c. []"]
  by (simp add: ex_request_def ex_empty_pattern_def ex_chunks_def)

text \<open>
  Claim C8. Two scans of the same request by the same matcher that are not cancelled
  return the same merger, whatever the two schedules are: the order in which the
  workers' counts and results arrive does not show. Past the two fast paths, the partial
  results of the merger are the sorted matches of the slices of \<^verbatim>\<open>sliceChunks\<close>, in the
  order of the slices.
\<close>

theorem scan_deterministic:
  assumes "scan E m request sch1 = Inr (m1, out1)" and "scan E m request sch2 = Inr (m2, out2)"
    and "\<not> so_cancelled out1" and "\<not> so_cancelled out2"
  shows "so_merger out1 = so_merger out2
    \<and> (rq_chunks request = [] \<or> IsEmpty (rq_pattern request)
        \<or> (\<exists>slices lo hi.
              sliceChunks m (rq_chunks request) = Inr slices
            \<and> so_merger out1 =
                Some (NewMerger (rq_pattern request)
                        (map (\<lambda>cs. localSort E m request (concat (map (Match (rq_pattern request)) cs)))
                           slices)
                        (m_sort m \<and> sortable (rq_pattern request)) (m_tac m) (rq_revision request)
                        lo hi)))"
proof (cases "rq_chunks request = [] \<or> IsEmpty (rq_pattern request)")
  case True
  show ?thesis
  proof (cases "rq_chunks request = []")
    case True
    with assms(1,2) scan_empty [of request E m] show ?thesis by auto
  next
    case False
    with True assms(1,2) scan_pass [of request E m] show ?thesis by auto
  qed
next
  case False
  then have ne: "rq_chunks request \<noteq> []" and np: "\<not> IsEmpty (rq_pattern request)" by simp_all
  from scan_collected [OF assms(1) ne np assms(3)] scan_collected [OF assms(2) ne np assms(4)]
  show ?thesis by auto
qed

text \<open>
  Claim C8, an instance: the scan of the example under two schedules that serve the two
  workers in opposite orders.
\<close>

theorem scan_deterministic_witness:
  "scan ex_ext ex_matcher ex_request ex_sched =
     Inr (ex_matcher\<lparr>m_slab := [True, True],
                     m_eventBox := [EvtSearchProgress (1 / 3), EvtSearchProgress (2 / 3)]\<rparr>,
          \<lparr>so_merger = Some (NewMerger ex_pattern [[2, 4], [6, 8, 10]] True False (1, 0) 4 8),
           so_cancelled = False, so_progress = [1 / 3, 2 / 3], so_count = 3,
           so_dispatched = [[\<lparr>items = [4, 1, 2]\<rparr>], [\<lparr>items = [3, 8, 6]\<rparr>, \<lparr>items = [10, 7]\<rparr>]]\<rparr>)
   \<and> scan ex_ext ex_matcher ex_request ex_sched_alt =
     Inr (ex_matcher\<lparr>m_slab := [True, True], m_eventBox := []\<rparr>,
          \<lparr>so_merger = Some (NewMerger ex_pattern [[2, 4], [6, 8, 10]] True False (1, 0) 4 8),
           so_cancelled = False, so_progress = [], so_count = 3,
           so_dispatched = [[\<lparr>items = [4, 1, 2]\<rparr>], [\<lparr>items = [3, 8, 6]\<rparr>, \<lparr>items = [10, 7]\<rparr>]]\<rparr>)
   \<and> (\<exists>slices.
          sliceChunks ex_matcher ex_chunks = Inr slices
        \<and> map (\<lambda>cs. localSort ex_ext ex_matcher ex_request (concat (map (Match ex_pattern) cs))) slices
            = [[2, 4], [6, 8, 10]])"
proof -
  note T = scan_deterministic [OF ex_scan ex_scan_alt]
  have a: "rq_chunks ex_request = ex_chunks" "rq_pattern ex_request = ex_pattern"
    by (simp_all add: ex_request_def)
  have b: "ex_chunks \<noteq> []" "\<not> IsEmpty ex_pattern"
    by (simp_all add: ex_chunks_def ex_pattern_def)
  from T a b have
    "\<exists>slices. sliceChunks ex_matcher ex_chunks = Inr slices
       \<and> map (\<lambda>cs. localSort ex_ext ex_matcher ex_request (concat (map (Match ex_pattern) cs))) slices
           = [[2, 4], [6, 8, 10]]"
    by (auto simp: NewMerger_def)
  with ex_scan ex_scan_alt show ?thesis by blast
qed

text \<open>
  Claim C9. The progress ratios that a scan sets on the output mailbox are appended to it
  in order; each is \<open>k / numChunks\<close> for a count \<open>k\<close> of received chunk completions
  with \<open>0 < k < numChunks\<close>, and the counts increase strictly, so the ratios are
  non-decreasing. A scan past the two fast paths that is not cancelled returns with
  \<^verbatim>\<open>count\<close> equal to the number of chunks.
\<close>

theorem scan_progress_monotone:
  assumes "scan E m request sch = Inr (m', out)"
  shows "m_eventBox m' = m_eventBox m @ map EvtSearchProgress (so_progress out)
    \<and> sorted (so_progress out)
    \<and> (\<exists>ks. so_progress out = map (\<lambda>k. of_nat k / of_nat (length (rq_chunks request))) ks
            \<and> sorted_wrt (<) ks \<and> (\<forall>k \<in> set ks. 0 < k \<and> k < length (rq_chunks request)))
    \<and> (rq_chunks request = [] \<or> IsEmpty (rq_pattern request) \<or> so_cancelled out
        \<or> so_count out = length (rq_chunks request))"
proof -
  from scan_progress [OF assms] obtain ks where
    ev: "m_eventBox m' = m_eventBox m @ map EvtSearchProgress (so_progress out)"
    and ks: "so_progress out = map (\<lambda>k. of_nat k / of_nat (length (rq_chunks request))) ks"
      "sorted_wrt (<) ks" "\<forall>k \<in> set ks. 0 < k \<and> k < length (rq_chunks request)"
    by blast
  have "sorted_wrt (<) (so_progress out)"
  proof (cases "rq_chunks request = []")
    case True
    with ks(3) have "ks = []" by (cases ks) auto
    with ks(1) show ?thesis by simp
  next
    case False
    then have "0 < length (rq_chunks request)" by simp
    from ratios_increasing [OF ks(2) this] ks(1) show ?thesis by simp
  qed
  then have s: "sorted (so_progress out)" by (rule strict_sorted_imp_sorted)
  have c: "rq_chunks request = [] \<or> IsEmpty (rq_pattern request) \<or> so_cancelled out
        \<or> so_count out = length (rq_chunks request)"
    using scan_collected [OF assms] by blast
  from ev s ks c show ?thesis by blast
qed

text \<open>
  Claim C9, an instance: the scan of the example reports one third and two thirds and
  returns with all three chunks counted.
\<close>

theorem scan_progress_monotone_witness:
  "scan ex_ext ex_matcher ex_request ex_sched =
     Inr (ex_matcher\<lparr>m_slab := [True, True],
                     m_eventBox := [EvtSearchProgress (1 / 3), EvtSearchProgress (2 / 3)]\<rparr>,
          \<lparr>so_merger = Some (NewMerger ex_pattern [[2, 4], [6, 8, 10]] True False (1, 0) 4 8),
           so_cancelled = False, so_progress = [1 / 3, 2 / 3], so_count = 3,
           so_dispatched = [[\<lparr>items = [4, 1, 2]\<rparr>], [\<lparr>items = [3, 8, 6]\<rparr>, \<lparr>items = [10, 7]\<rparr>]]\<rparr>)
   \<and> sorted [1 / 3, 2 / 3 :: rat]
   \<and> (3::nat) = length (rq_chunks ex_request)"
proof -
  note T = scan_progress_monotone [OF ex_scan]
  have a: "rq_chunks ex_request \<noteq> []" "\<not> IsEmpty (rq_pattern ex_request)"
    by (simp_all add: ex_request_def ex_chunks_def ex_pattern_def)
  from T a have "sorted [1 / 3, 2 / 3 :: rat]" "(3::nat) = length (rq_chunks ex_request)"
    by simp_all
  with ex_scan show ?thesis by blast
qed

section \<open>The claims about the request loop\<close>

text \<open>
  Claim C6. In an iteration whose scan is cancelled, no \<^verbatim>\<open>EvtSearchFin\<close> is set on the output
  mailbox, no merger is stored or allocated, and the merger cache is what the
  invalidation steps of lines 85-113 left (emptied or untouched), whatever the scan did.
  In an iteration that is not cancelled exactly one \<^verbatim>\<open>EvtSearchFin\<close> is set, for the
  merger of the iteration, whose \<^verbatim>\<open>final\<close> flag is then the one of the request; the merger
  is in the cache under the pattern string when it was cacheable. A cancelled iteration
  did call the scan.
\<close>

theorem cycle_cancelled_publishes_nothing:
  assumes "cycle E sch st request = Inr (st', t)"
  shows "(ct_cancelled t \<longrightarrow>
            ct_scanned t \<and> \<not> ct_stored t \<and> ct_merger t = None
          \<and> filter isFin (m_eventBox (ls_m st')) = filter isFin (m_eventBox (ls_m st))
          \<and> ls_heap st' = ls_heap st \<and> ls_next st' = ls_next st
          \<and> m_mergerCache (ls_m st') =
              (if (rq_sort request \<noteq> m_sort (ls_m st) \<or> rq_revision request \<noteq> m_revision (ls_m st))
                  \<or> CountItems E (rq_chunks request) \<noteq> ls_prevCount st
               then Map.empty else m_mergerCache (ls_m st)))
       \<and> (\<not> ct_cancelled t \<longrightarrow>
            (\<exists>a. ct_merger t = Some a
               \<and> filter isFin (m_eventBox (ls_m st'))
                   = filter isFin (m_eventBox (ls_m st)) @ [EvtSearchFin a]
               \<and> mg_final (ls_heap st' a) = rq_final request
               \<and> (ct_stored t \<longrightarrow>
                     m_mergerCache (ls_m st') (AsString (rq_pattern request)) = Some a)))"
proof -
  let ?pat = "AsString (rq_pattern request)" and ?count = "CountItems E (rq_chunks request)"
  from assms obtain m1 cc merger0 pc m2 m3 merger cancelled scanned heap1 next1 where
    inv: "invalidate E (ls_m st) request = (m1, cc)"
    and lk: "lookupCache (ls_heap st) m1 cc (ls_prevCount st) ?count ?pat request = (merger0, pc, m2)"
    and sc: "scanIfNeeded E sch (ls_heap st) (ls_next st) m2 request merger0
       = Inr (m3, merger, cancelled, scanned, heap1, next1)"
    and pb: "publish E request ?pat cc pc m3 merger cancelled scanned heap1 next1 = Inr (st', t)"
    by (rule cycle_stages)
  have cc: "cc = (rq_sort request \<noteq> m_sort (ls_m st) \<or> rq_revision request \<noteq> m_revision (ls_m st))"
    and ev1: "m_eventBox m1 = m_eventBox (ls_m st)"
    and ch1: "m_mergerCache m1 = (if cc then Map.empty else m_mergerCache (ls_m st))"
    using inv by (auto simp: invalidate_eq split: if_splits)
  have ev2: "m_eventBox m2 = m_eventBox (ls_m st)"
    and ch2: "m_mergerCache m2 = (if cc \<or> ?count \<noteq> ls_prevCount st then Map.empty
                                   else m_mergerCache (ls_m st))"
    using lk ev1 ch1 by (auto simp: lookupCache_eq split: if_splits)
  show ?thesis
  proof (cases merger0)
    case (Some a)
    with sc have "m3 = m2" "merger = Some a" "\<not> cancelled" "heap1 = ls_heap st"
      by (simp_all add: scanIfNeeded_hit)
    with pb have t: "ct_cancelled t = False" "ct_merger t = Some a"
        "ct_stored t = cacheable E (ls_heap st a)"
      and st': "m_eventBox (ls_m st') = m_eventBox m2 @ [EvtSearchFin a]"
        "ls_heap st' = (ls_heap st)(a := (ls_heap st a)\<lparr>mg_final := rq_final request\<rparr>)"
        "ct_stored t \<longrightarrow> m_mergerCache (ls_m st') ?pat = Some a"
      by (auto simp: publish_def Let_def)
    then show ?thesis using ev2 by simp
  next
    case None
    note ms = scanIfNeeded_miss [OF sc [unfolded None]]
    from ms(2) obtain slab qs where
      m3: "m3 = m2\<lparr>m_slab := slab, m_eventBox := m_eventBox m2 @ map EvtSearchProgress qs\<rparr>"
      by blast
    show ?thesis
    proof (cases cancelled)
      case True
      with ms(3) have "merger = None" "heap1 = ls_heap st" "next1 = ls_next st" by simp_all
      with True pb ms(1) have t: "ct_cancelled t" "ct_scanned t" "\<not> ct_stored t" "ct_merger t = None"
        and st': "ls_m st' = m3" "ls_heap st' = ls_heap st" "ls_next st' = ls_next st"
        by (auto simp: publish_def)
      have "filter isFin (m_eventBox m3) = filter isFin (m_eventBox (ls_m st))"
        "m_mergerCache m3 = m_mergerCache m2"
        using m3 ev2 by simp_all
      with t st' ch2 cc show ?thesis by simp
    next
      case False
      with ms(4) obtain mg where "merger = Some (ls_next st)" "heap1 = (ls_heap st)(ls_next st := mg)"
        by blast
      with False pb have t: "ct_cancelled t = False" "ct_merger t = Some (ls_next st)"
        and st': "m_eventBox (ls_m st') = m_eventBox m3 @ [EvtSearchFin (ls_next st)]"
          "mg_final (ls_heap st' (ls_next st)) = rq_final request"
          "ct_stored t \<longrightarrow> m_mergerCache (ls_m st') ?pat = Some (ls_next st)"
        by (auto simp: publish_def Let_def)
      have "filter isFin (m_eventBox m3) = filter isFin (m_eventBox (ls_m st))"
        using m3 ev2 by simp
      with t st' show ?thesis by simp
    qed
  qed
qed

text \<open>
  Claim C6, two instances: the request of the example under a schedule that resets the
  scan, and under one that lets it finish.
\<close>

theorem cycle_cancelled_publishes_nothing_witness:
  "cycle ex_ext ex_sched_reset ex_state ex_request =
     Inr (ex_state
            \<lparr>ls_m := ex_matcher\<lparr>m_slab := [True, True], m_eventBox := [EvtSearchProgress (1 / 3)]\<rparr>,
             ls_prevCount := 8\<rparr>,
          \<lparr>ct_cacheCleared = False, ct_scanned = True, ct_cancelled = True, ct_stored = False,
           ct_merger = None\<rparr>)
   \<and> filter isFin [EvtSearchProgress (1 / 3)] = filter isFin (m_eventBox (ls_m ex_state))
   \<and> cycle ex_ext ex_sched ex_state ex_request =
     Inr (ex_state_done\<lparr>ls_prevCount := 8\<rparr>,
          \<lparr>ct_cacheCleared = False, ct_scanned = True, ct_cancelled = False, ct_stored = True,
           ct_merger = Some 0\<rparr>)
   \<and> filter isFin (m_eventBox (ls_m ex_state_done))
       = filter isFin (m_eventBox (ls_m ex_state)) @ [EvtSearchFin 0]"
proof -
  from cycle_cancelled_publishes_nothing [OF ex_cycle_reset]
  have 1: "filter isFin [EvtSearchProgress (1 / 3)] = filter isFin (m_eventBox (ls_m ex_state))"
    by simp
  from cycle_cancelled_publishes_nothing [OF ex_cycle_first]
  have 2: "filter isFin (m_eventBox (ls_m ex_state_done))
       = filter isFin (m_eventBox (ls_m ex_state)) @ [EvtSearchFin 0]"
    by simp
  from 1 2 ex_cycle_reset ex_cycle_first show ?thesis by blast
qed

text \<open>
  Claim C2, as amended. Take two consecutive iterations for requests with equal pattern
  strings, equal item counts, and the same sort flag and revision. The second iteration
  clears nothing for sort or revision, and it is served from the cache (no scan) exactly
  when the item count equals \<^verbatim>\<open>prevCount\<close>, the cache has an entry for the pattern string,
  and the \<^verbatim>\<open>final\<close> flag of that merger is the one of the request. \<^verbatim>\<open>prevCount\<close> is the
  item count of the previous request only when the previous iteration did not clear for
  sort or revision, or found its count equal to \<^verbatim>\<open>prevCount\<close> already. In that case, and
  when the first iteration stored its merger (its scan was not cancelled and the merger
  was cacheable), the second request is served from the cache if and only if the two
  requests have the same \<^verbatim>\<open>final\<close> flag.
\<close>

theorem cache_hit_iff:
  assumes "cycle E sch1 st0 r1 = Inr (st1, t1)" and "cycle E sch2 st1 r2 = Inr (st2, t2)"
    and "AsString (rq_pattern r2) = AsString (rq_pattern r1)"
    and "CountItems E (rq_chunks r2) = CountItems E (rq_chunks r1)"
    and "rq_sort r2 = rq_sort r1" and "rq_revision r2 = rq_revision r1"
  shows "\<not> ct_cacheCleared t2
    \<and> (\<not> ct_scanned t2 \<longleftrightarrow>
          CountItems E (rq_chunks r2) = ls_prevCount st1
        \<and> (\<exists>a. m_mergerCache (ls_m st1) (AsString (rq_pattern r2)) = Some a
               \<and> mg_final (ls_heap st1 a) = rq_final r2))
    \<and> (ct_stored t1
        \<and> (\<not> ct_cacheCleared t1 \<or> CountItems E (rq_chunks r1) = ls_prevCount st0)
        \<longrightarrow> (\<not> ct_scanned t2 \<longleftrightarrow> rq_final r2 = rq_final r1))"
proof -
  note A = cycle_post [OF assms(1)] and B = cycle_post [OF assms(2)]
  have nc: "\<not> ct_cacheCleared t2" using B(1) A(2,3) assms(5,6) by simp
  have hit: "\<not> ct_scanned t2 \<longleftrightarrow>
          CountItems E (rq_chunks r2) = ls_prevCount st1
        \<and> (\<exists>a. m_mergerCache (ls_m st1) (AsString (rq_pattern r2)) = Some a
               \<and> mg_final (ls_heap st1 a) = rq_final r2)"
    using B(7) nc by simp
  have "\<not> ct_scanned t2 \<longleftrightarrow> rq_final r2 = rq_final r1"
    if st: "ct_stored t1"
      and pc: "\<not> ct_cacheCleared t1 \<or> CountItems E (rq_chunks r1) = ls_prevCount st0"
  proof -
    from A(6) st obtain a where
      a: "m_mergerCache (ls_m st1) (AsString (rq_pattern r1)) = Some a"
         "mg_final (ls_heap st1 a) = rq_final r1" by blast
    have "ls_prevCount st1 = CountItems E (rq_chunks r1)" using A(4) pc by auto
    with hit a assms(3,4) show ?thesis by auto
  qed
  with nc hit show ?thesis by blast
qed

text \<open>
  Claim C2, an instance of the amended statement: from the start of the loop the request
  of the example is scanned and stored, and the same request is then served from the
  cache.
\<close>

theorem cache_hit_iff_witness:
  "cycle ex_ext ex_sched ex_state ex_request =
     Inr (ex_state_done\<lparr>ls_prevCount := 8\<rparr>,
          \<lparr>ct_cacheCleared = False, ct_scanned = True, ct_cancelled = False, ct_stored = True,
           ct_merger = Some 0\<rparr>)
   \<and> cycle ex_ext ex_sched (ex_state_done\<lparr>ls_prevCount := 8\<rparr>) ex_request =
     Inr (ex_state_done
            \<lparr>ls_m := (ls_m ex_state_done)
               \<lparr>m_eventBox := m_eventBox (ls_m ex_state_done) @ [EvtSearchFin 0]\<rparr>,
             ls_prevCount := 8\<rparr>,
          \<lparr>ct_cacheCleared = False, ct_scanned = False, ct_cancelled = False, ct_stored = True,
           ct_merger = Some 0\<rparr>)
   \<and> CountItems ex_ext (rq_chunks ex_request) = ls_prevCount (ex_state_done\<lparr>ls_prevCount := 8\<rparr>)"
proof -
  note T = cache_hit_iff [OF ex_cycle_first ex_cycle_hit refl refl refl refl]
  from T have "CountItems ex_ext (rq_chunks ex_request)
      = ls_prevCount (ex_state_done\<lparr>ls_prevCount := 8\<rparr>)"
    by simp
  with ex_cycle_first ex_cycle_hit show ?thesis by blast
qed

text \<open>
  Claim C2 as stated fails. The matcher does not sort and the request asks for sorting:
  the first iteration clears the cache for that, scans, stores the merger with the
  \<^verbatim>\<open>final\<close> flag of the request, and leaves \<^verbatim>\<open>prevCount\<close> at 0. The same request again
  (same pattern string, item count, sort flag, revision and \<^verbatim>\<open>final\<close> flag) is not served
  from the cache: the count 8 differs from \<^verbatim>\<open>prevCount\<close>, the cache is emptied, and the
  scan runs again. The last line is the same run by \<^verbatim>\<open>Loop\<close> from its start.
\<close>

theorem second_request_rescans:
  "cycle ex_ext ex_sched ex_state_unsorted ex_request =
     Inr (ex_state_done,
          \<lparr>ct_cacheCleared = True, ct_scanned = True, ct_cancelled = False, ct_stored = True,
           ct_merger = Some 0\<rparr>)
   \<and> m_mergerCache (ls_m ex_state_done) (AsString (rq_pattern ex_request)) = Some 0
   \<and> mg_final (ls_heap ex_state_done 0) = rq_final ex_request
   \<and> cycle ex_ext ex_sched_alt ex_state_done ex_request =
     Inr (ex_state_done
            \<lparr>ls_m := (ls_m ex_state_done)
               \<lparr>m_eventBox := m_eventBox (ls_m ex_state_done) @ [EvtSearchFin 1],
                m_mergerCache := [''a'' \<mapsto> 1]\<rparr>,
             ls_prevCount := 8,
             ls_heap := (ls_heap ex_state_done)(1 := ex_merger\<lparr>mg_final := True\<rparr>),
             ls_next := 2\<rparr>,
          \<lparr>ct_cacheCleared = False, ct_scanned = True, ct_cancelled = False, ct_stored = True,
           ct_merger = Some 1\<rparr>)
   \<and> map ct_scanned
         (snd (projr (Loop ex_ext (ex_matcher\<lparr>m_sort := False\<rparr>) (\<lambda>a. EmptyMerger (0, 0)) 0
                        [([(reqRetry, Request ex_request)], ex_sched),
                         ([(reqRetry, Request ex_request)], ex_sched_alt)])))
       = [True, True]"
proof -
  have 1: "m_mergerCache (ls_m ex_state_done) (AsString (rq_pattern ex_request)) = Some 0"
    "mg_final (ls_heap ex_state_done 0) = rq_final ex_request"
    by (simp_all add: ex_state_done_def ex_request_def ex_pattern_def)
  have s: "\<lparr>ls_m = ex_matcher\<lparr>m_sort := False\<rparr>, ls_prevCount = 0,
             ls_heap = (\<lambda>a. EmptyMerger (0, 0)), ls_next = 0\<rparr> = ex_state_unsorted"
    by (simp add: ex_state_unsorted_def ex_state_def)
  have 2: "map ct_scanned
         (snd (projr (Loop ex_ext (ex_matcher\<lparr>m_sort := False\<rparr>) (\<lambda>a. EmptyMerger (0, 0)) 0
                        [([(reqRetry, Request ex_request)], ex_sched),
                         ([(reqRetry, Request ex_request)], ex_sched_alt)])))
       = [True, True]"
    by (simp add: Loop_def s ex_cycle_unsorted ex_cycle_again)
  from 1 2 ex_cycle_unsorted ex_cycle_again show ?thesis by blast
qed

text \<open>
  Claim C1, the code at the failing input. The matcher is at revision \<open>(0, 0)\<close> and the
  request has revision \<open>(1, 0)\<close>, which is not compatible with it. The iteration clears
  the merger cache, and it does not call \<^verbatim>\<open>Clear()\<close> on the chunk cache: line 88 has
  overwritten \<^verbatim>\<open>m.revision\<close> with the revision of the request before line 90 compares
  the two, so the comparison is of the revision of the request with itself.
\<close>

theorem incompatible_revision_not_cleared:
  "\<not> compatible ex_ext (rq_revision ex_request) (m_revision (ls_m ex_state_old))
   \<and> cycle ex_ext ex_sched ex_state_old ex_request =
     Inr (ex_state_done,
          \<lparr>ct_cacheCleared = True, ct_scanned = True, ct_cancelled = False, ct_stored = True,
           ct_merger = Some 0\<rparr>)
   \<and> m_cache (ls_m ex_state_done) = m_cache (ls_m ex_state_old)"
  using ex_cycle_old
  by (simp add: ex_state_old_def ex_state_def ex_state_done_def ex_request_def ex_ext_def
      ex_matcher_def NewMatcher_def)

text \<open>
  Claim C1: the count of the calls of \<^verbatim>\<open>Clear()\<close> is the same after that iteration, and
  the revision did change.
\<close>

theorem incompatible_revision_not_cleared_witness:
  "m_cache (ls_m ex_state_done) = m_cache (ls_m ex_state_old)
   \<and> rq_revision ex_request \<noteq> m_revision (ls_m ex_state_old)"
  using incompatible_revision_not_cleared
  by (auto simp: ex_state_old_def ex_state_def ex_request_def ex_matcher_def NewMatcher_def)

end
